theory Spec2Isabelle
  imports Complex_Main "HOL-Library.Multiset"
begin

section \<open>Qubit routing: the routing state and the annealing search\<close>

text \<open>
  A shallow embedding of \<^verbatim>\<open>qroute/environment/state.py\<close> (class
  \<^verbatim>\<open>CircuitStateDQN\<close>), of \<^verbatim>\<open>qroute/algorithms/simanneal.py\<close> (class
  \<^verbatim>\<open>AnnealerDQN\<close>) and of the action assertion of \<^verbatim>\<open>qroute/engine.py\<close>.

  Conventions.
  \<^item> A one-dimensional numpy array of integers is an \<open>int list\<close>. The arrays have dtype
    \<^verbatim>\<open>np.int\<close>, signed 64-bit integers: their entries lie between \<open>-2^63\<close> and
    \<open>2^63 - 1\<close>, and in-place arithmetic on an entry wraps around modulo \<open>2^64\<close>
    (\<open>wrap64\<close> below) without an exception.
  \<^item> Indexing follows Python and numpy: an index \<open>i\<close> with \<open>0 \<le> i < n\<close> selects entry
    \<open>i\<close>, an index with \<open>-n \<le> i < 0\<close> selects entry \<open>n + i\<close>, and every other
    index raises \<^verbatim>\<open>IndexError\<close>.
  \<^item> A method that mutates \<^verbatim>\<open>self\<close> returns the pair of its outcome (\<open>Inl\<close> of the
    exception raised, or \<open>Inr\<close> of the value returned) and the state it leaves behind, so
    that what was written before an exception is part of the model.
\<close>

subsection \<open>Exceptions and indexing\<close>

datatype error =
    IndexError
  | ValueError
  | TypeError
  | AssertionError string
  | RuntimeError string

definition py_index :: "nat \<Rightarrow> int \<Rightarrow> nat option" where
  "py_index n i =
     (if 0 \<le> i \<and> i < int n then Some (nat i)
      else if - int n \<le> i \<and> i < 0 then Some (nat (int n + i))
      else None)"

definition py_get :: "'a list \<Rightarrow> int \<Rightarrow> error + 'a" where
  "py_get xs i = (case py_index (length xs) i of None \<Rightarrow> Inl IndexError | Some k \<Rightarrow> Inr (xs ! k))"

definition py_set :: "'a list \<Rightarrow> int \<Rightarrow> 'a \<Rightarrow> error + 'a list" where
  "py_set xs i v =
     (case py_index (length xs) i of None \<Rightarrow> Inl IndexError | Some k \<Rightarrow> Inr (xs[k := v]))"

text \<open>The value a signed 64-bit array entry takes when the exact result is \<open>x\<close>.\<close>

definition wrap64 :: "int \<Rightarrow> int" where
  "wrap64 x = (x + 2 ^ 63) mod 2 ^ 64 - 2 ^ 63"

subsection \<open>The device, the circuit and the routing state\<close>

text \<open>
  The classes \<^verbatim>\<open>DeviceTopology\<close> and \<^verbatim>\<open>CircuitRepDQN\<close> are data providers:
  the state reads \<^verbatim>\<open>len(device)\<close>, \<^verbatim>\<open>device.edges\<close>, \<^verbatim>\<open>device.distances\<close>,
  \<^verbatim>\<open>len(circuit)\<close> and \<^verbatim>\<open>circuit[q]\<close> (the ordered targets of qubit \<open>q\<close>).
\<close>

type_synonym edge = "int \<times> int"

record device =
  dev_len :: nat
  edges :: "edge list"
  distances :: "int list list"

type_synonym circuit = "int list list"

text \<open>The four arrays \<^verbatim>\<open>self._node_to_qubit\<close>, \<^verbatim>\<open>self._qubit_targets\<close>,
  \<^verbatim>\<open>self._circuit_progress\<close> and \<^verbatim>\<open>self._locked_edges\<close>. The operations below
  take them as four distinct arrays, which is how the constructor's defaults and
  \<^verbatim>\<open>__copy__\<close> create them.\<close>

record circuit_state =
  s_node_to_qubit :: "int list"
  s_qubit_targets :: "int list"
  s_circuit_progress :: "int list"
  s_locked_edges :: "int list"

text \<open>The mapping is a permutation of \<open>0, \<dots>, N - 1\<close>, \<open>N\<close> its length.\<close>

definition is_permutation :: "int list \<Rightarrow> bool" where
  "is_permutation xs = (mset xs = mset (map int [0..<length xs]))"

text \<open>An edge whose two ends are node numbers of an \<open>n\<close>-node device.\<close>

definition edge_in_range :: "nat \<Rightarrow> edge \<Rightarrow> bool" where
  "edge_in_range n e = (0 \<le> fst e \<and> fst e < int n \<and> 0 \<le> snd e \<and> snd e < int n)"

definition edges_in_range :: "nat \<Rightarrow> edge list \<Rightarrow> bool" where
  "edges_in_range n es = list_all (edge_in_range n) es"

text \<open>Two edges with no node in common.\<close>

definition edges_disjoint :: "edge \<Rightarrow> edge \<Rightarrow> bool" where
  "edges_disjoint e f =
     (fst e \<noteq> fst f \<and> fst e \<noteq> snd f \<and> snd e \<noteq> fst f \<and> snd e \<noteq> snd f)"

text \<open>The edges a boolean solution selects, as \<^verbatim>\<open>zip(self.device.edges, solution)\<close>
  pairs them, and the requirement that no node is an end of two of them.\<close>

definition selected_edges :: "edge list \<Rightarrow> bool list \<Rightarrow> edge list" where
  "selected_edges es solution = map fst (filter snd (zip es solution))"

fun pairwise_disjoint :: "edge list \<Rightarrow> bool" where
  "pairwise_disjoint [] = True"
| "pairwise_disjoint (e # es) = (list_all (edges_disjoint e) es \<and> pairwise_disjoint es)"

definition vertex_disjoint :: "edge list \<Rightarrow> bool list \<Rightarrow> bool" where
  "vertex_disjoint es solution = pairwise_disjoint (selected_edges es solution)"

subsection \<open>\<^verbatim>\<open>execute_swap\<close>\<close>

text \<open>
  \<^verbatim>\<open>
  gates_being_executed = []
  for edge, sol in zip(self.device.edges, solution):
      if sol:
          node1, node2 = edge
          gates_being_executed.append(edge)
          self._node_to_qubit[node1], self._node_to_qubit[node2] = \
              self._node_to_qubit[node2], self._node_to_qubit[node1]
  return gates_being_executed
  \<close>
  The right-hand side is read first (entry \<open>node2\<close>, then entry \<open>node1\<close>), then entry
  \<open>node1\<close> and entry \<open>node2\<close> are written in this order.
\<close>

fun swap_loop ::
  "(edge \<times> bool) list \<Rightarrow> int list \<Rightarrow> edge list \<Rightarrow> (error + edge list) \<times> int list" where
  "swap_loop [] ntq gates = (Inr gates, ntq)"
| "swap_loop ((edge, sol) # rest) ntq gates =
     (if sol then
        (case py_get ntq (snd edge) of
           Inl e \<Rightarrow> (Inl e, ntq)
         | Inr v2 \<Rightarrow>
        (case py_get ntq (fst edge) of
           Inl e \<Rightarrow> (Inl e, ntq)
         | Inr v1 \<Rightarrow>
        (case py_set ntq (fst edge) v2 of
           Inl e \<Rightarrow> (Inl e, ntq)
         | Inr ntq1 \<Rightarrow>
        (case py_set ntq1 (snd edge) v1 of
           Inl e \<Rightarrow> (Inl e, ntq1)
         | Inr ntq2 \<Rightarrow> swap_loop rest ntq2 (gates @ [edge])))))
      else swap_loop rest ntq gates)"

definition execute_swap ::
  "device \<Rightarrow> circuit_state \<Rightarrow> bool list \<Rightarrow> (error + edge list) \<times> circuit_state" where
  "execute_swap dev st solution =
     (case swap_loop (zip (edges dev) solution) (s_node_to_qubit st) [] of
        (r, ntq) \<Rightarrow> (r, st\<lparr>s_node_to_qubit := ntq\<rparr>))"

text \<open>What applying swaps means, for stating what \<^verbatim>\<open>execute_swap\<close> leaves behind: the
  qubits on the two ends of an edge change places, and a list of edges is applied one
  edge after the other, first edge first.\<close>

definition transpose_at :: "edge \<Rightarrow> int list \<Rightarrow> int list" where
  "transpose_at e ntq = ntq[nat (fst e) := ntq ! nat (snd e), nat (snd e) := ntq ! nat (fst e)]"

definition apply_swaps :: "edge list \<Rightarrow> int list \<Rightarrow> int list" where
  "apply_swaps es ntq = fold transpose_at es ntq"

subsection \<open>\<^verbatim>\<open>update_locks\<close> and the \<^verbatim>\<open>locked_edges\<close> property\<close>

text \<open>
  \<^verbatim>\<open>
  def update_locks(self, mask=None, multiplier=None):
      if mask is None:
          self._locked_edges -= self._locked_edges > 0
      else:
          self._locked_edges += mask * multiplier
  \<close>
  Without a mask every counter loses the truth value of \<open>e > 0\<close>, which cannot leave the
  64-bit range. With a mask, the product of the mask array and the scalar multiplier (a
  64-bit integer) is added in place, wrapping around, which numpy allows when the mask has
  the length of the lock array or length one; a multiplier left at \<^verbatim>\<open>None\<close> cannot
  be multiplied.
\<close>

definition decay_lock :: "int \<Rightarrow> int" where
  "decay_lock e = e - (if e > 0 then 1 else 0)"

definition update_locks ::
  "circuit_state \<Rightarrow> int list option \<Rightarrow> int option \<Rightarrow> (error + unit) \<times> circuit_state" where
  "update_locks st msk multiplier =
     (case msk of
        None \<Rightarrow> (Inr (), st\<lparr>s_locked_edges := map decay_lock (s_locked_edges st)\<rparr>)
      | Some m \<Rightarrow>
          (case multiplier of
             None \<Rightarrow> (Inl TypeError, st)
           | Some k \<Rightarrow>
               if length m = length (s_locked_edges st) then
                 (Inr (), st\<lparr>s_locked_edges :=
                             map2 (\<lambda>e b. wrap64 (e + b * k)) (s_locked_edges st) m\<rparr>)
               else if length m = 1 then
                 (Inr (), st\<lparr>s_locked_edges :=
                             map (\<lambda>e. wrap64 (e + hd m * k)) (s_locked_edges st)\<rparr>)
               else (Inl ValueError, st)))"

text \<open>\<^verbatim>\<open>return self._locked_edges > 0\<close>\<close>

definition locked_edges :: "circuit_state \<Rightarrow> bool list" where
  "locked_edges st = map (\<lambda>e. e > 0) (s_locked_edges st)"

subsection \<open>\<^verbatim>\<open>execute_cnot\<close>\<close>

text \<open>
  \<^verbatim>\<open>
  gates_being_executed = []
  for (n1, n2) in self.device.edges:
      q1, q2 = self._node_to_qubit[n1], self._node_to_qubit[n2]
      if self._qubit_targets[q1] != q2 or self._qubit_targets[q2] != q1:
          continue
      gates_being_executed.append((n1, n2))
      self._circuit_progress[q1] += 1
      self._circuit_progress[q2] += 1
  for q in range(len(self.device)):
      self._qubit_targets[q] = self.circuit[q][self._circuit_progress[q]] \
          if self._circuit_progress[q] < len(self.circuit[q]) else -1
  return gates_being_executed
  \<close>
  The scan reads the mapping and the targets and writes the progress only; the targets are
  written by the second loop. The \<^verbatim>\<open>or\<close> does not read the second target when the
  first already differs. The increment \<^verbatim>\<open>+= 1\<close> of an entry of the 64-bit progress
  array wraps around at \<open>2^63 - 1\<close>.
\<close>

definition py_incr :: "int list \<Rightarrow> int \<Rightarrow> error + int list" where
  "py_incr xs i =
     (case py_get xs i of Inl e \<Rightarrow> Inl e | Inr v \<Rightarrow> py_set xs i (wrap64 (v + 1)))"

fun cnot_loop ::
  "edge list \<Rightarrow> int list \<Rightarrow> int list \<Rightarrow> int list \<Rightarrow> edge list
     \<Rightarrow> (error + edge list) \<times> int list" where
  "cnot_loop [] ntq tg pr gates = (Inr gates, pr)"
| "cnot_loop ((n1, n2) # rest) ntq tg pr gates =
     (case py_get ntq n1 of
        Inl e \<Rightarrow> (Inl e, pr)
      | Inr q1 \<Rightarrow>
     (case py_get ntq n2 of
        Inl e \<Rightarrow> (Inl e, pr)
      | Inr q2 \<Rightarrow>
     (case py_get tg q1 of
        Inl e \<Rightarrow> (Inl e, pr)
      | Inr t1 \<Rightarrow>
          if t1 \<noteq> q2 then cnot_loop rest ntq tg pr gates
          else
     (case py_get tg q2 of
        Inl e \<Rightarrow> (Inl e, pr)
      | Inr t2 \<Rightarrow>
          if t2 \<noteq> q1 then cnot_loop rest ntq tg pr gates
          else
     (case py_incr pr q1 of
        Inl e \<Rightarrow> (Inl e, pr)
      | Inr pr1 \<Rightarrow>
     (case py_incr pr1 q2 of
        Inl e \<Rightarrow> (Inl e, pr1)
      | Inr pr2 \<Rightarrow> cnot_loop rest ntq tg pr2 (gates @ [(n1, n2)])))))))"

fun target_loop ::
  "nat list \<Rightarrow> circuit \<Rightarrow> int list \<Rightarrow> int list \<Rightarrow> (error + unit) \<times> int list" where
  "target_loop [] circ pr tg = (Inr (), tg)"
| "target_loop (q # qs) circ pr tg =
     (case py_get pr (int q) of
        Inl e \<Rightarrow> (Inl e, tg)
      | Inr p \<Rightarrow>
     (case py_get circ (int q) of
        Inl e \<Rightarrow> (Inl e, tg)
      | Inr targets \<Rightarrow>
     (case (if p < int (length targets) then py_get targets p else Inr (- 1)) of
        Inl e \<Rightarrow> (Inl e, tg)
      | Inr v \<Rightarrow>
     (case py_set tg (int q) v of
        Inl e \<Rightarrow> (Inl e, tg)
      | Inr tg1 \<Rightarrow> target_loop qs circ pr tg1))))"

definition execute_cnot ::
  "device \<Rightarrow> circuit \<Rightarrow> circuit_state \<Rightarrow> (error + edge list) \<times> circuit_state" where
  "execute_cnot dev circ st =
     (case cnot_loop (edges dev) (s_node_to_qubit st) (s_qubit_targets st)
             (s_circuit_progress st) [] of
        (Inl e, pr) \<Rightarrow> (Inl e, st\<lparr>s_circuit_progress := pr\<rparr>)
      | (Inr gates, pr) \<Rightarrow>
          (case target_loop [0..<dev_len dev] circ pr (s_qubit_targets st) of
             (Inl e, tg) \<Rightarrow> (Inl e, st\<lparr>s_qubit_targets := tg, s_circuit_progress := pr\<rparr>)
           | (Inr u, tg) \<Rightarrow> (Inr gates, st\<lparr>s_qubit_targets := tg, s_circuit_progress := pr\<rparr>)))"






subsection \<open>The views \<^verbatim>\<open>qubit_to_node\<close> and \<^verbatim>\<open>target_distance\<close>\<close>

text \<open>
  \<^verbatim>\<open>
  qubit_to_node = np.zeros(len(self._node_to_qubit), dtype=np.int)
  for i, v in enumerate(self._node_to_qubit):
      qubit_to_node[v] = i
  target_distances = np.zeros(len(self._node_to_qubit), dtype=np.int)
  for i, v in enumerate(self._qubit_targets):
      target_distances[i] = self.device.distances[qubit_to_node[i], qubit_to_node[v]]
  return target_distances
  \<close>
\<close>

fun inverse_loop :: "(nat \<times> int) list \<Rightarrow> int list \<Rightarrow> error + int list" where
  "inverse_loop [] q2n = Inr q2n"
| "inverse_loop ((i, v) # rest) q2n =
     (case py_set q2n v (int i) of Inl e \<Rightarrow> Inl e | Inr q2n1 \<Rightarrow> inverse_loop rest q2n1)"

definition qubit_to_node :: "circuit_state \<Rightarrow> error + int list" where
  "qubit_to_node st =
     inverse_loop (enumerate 0 (s_node_to_qubit st)) (replicate (length (s_node_to_qubit st)) 0)"

fun distance_loop ::
  "(nat \<times> int) list \<Rightarrow> int list list \<Rightarrow> int list \<Rightarrow> int list \<Rightarrow> error + int list" where
  "distance_loop [] dm q2n td = Inr td"
| "distance_loop ((i, v) # rest) dm q2n td =
     (case py_get q2n (int i) of
        Inl e \<Rightarrow> Inl e
      | Inr a \<Rightarrow>
     (case py_get q2n v of
        Inl e \<Rightarrow> Inl e
      | Inr b \<Rightarrow>
     (case py_get dm a of
        Inl e \<Rightarrow> Inl e
      | Inr row \<Rightarrow>
     (case py_get row b of
        Inl e \<Rightarrow> Inl e
      | Inr d \<Rightarrow>
     (case py_set td (int i) d of
        Inl e \<Rightarrow> Inl e
      | Inr td1 \<Rightarrow> distance_loop rest dm q2n td1)))))"

definition target_distance :: "device \<Rightarrow> circuit_state \<Rightarrow> error + int list" where
  "target_distance dev st =
     (case qubit_to_node st of
        Inl e \<Rightarrow> Inl e
      | Inr q2n \<Rightarrow>
          distance_loop (enumerate 0 (s_qubit_targets st)) (distances dev) q2n
            (replicate (length (s_node_to_qubit st)) 0))"

subsection \<open>The caller's assertion in \<^verbatim>\<open>train_step\<close>\<close>

text \<open>
  \<^verbatim>\<open>assert not np.any(np.bitwise_and(state.locked_edges, action)), "Bad Action"\<close>

  The two boolean arrays are combined entry by entry; numpy stretches an array of length
  one and raises \<^verbatim>\<open>ValueError\<close> on any other difference of lengths.
\<close>

definition np_broadcast :: "('a \<Rightarrow> 'b \<Rightarrow> 'c) \<Rightarrow> 'a list \<Rightarrow> 'b list \<Rightarrow> error + 'c list" where
  "np_broadcast f xs ys =
     (if length xs = length ys then Inr (map2 f xs ys)
      else if length xs = 1 then Inr (map (f (hd xs)) ys)
      else if length ys = 1 then Inr (map (\<lambda>x. f x (hd ys)) xs)
      else Inl ValueError)"

definition train_step_assert :: "circuit_state \<Rightarrow> bool list \<Rightarrow> error + unit" where
  "train_step_assert st action =
     (case np_broadcast (\<and>) (locked_edges st) action of
        Inl e \<Rightarrow> Inl e
      | Inr both \<Rightarrow> if list_ex id both then Inl (AssertionError ''Bad Action'') else Inr ())"

subsection \<open>Array objects: \<^verbatim>\<open>__copy__\<close> and \<^verbatim>\<open>__eq__\<close>\<close>

text \<open>
  Whether a copy is independent of its original is a question about which array objects
  the two states refer to. Here the arrays live in a store, a list of array contents whose
  positions are the addresses; a state object holds the shared circuit and device and the
  addresses of its four arrays. \<^verbatim>\<open>np.copy\<close> allocates a new array at the end of the
  store.
  \<^verbatim>\<open>
  def __copy__(self):
      return CircuitStateDQN(self.circuit, self.device, np.copy(self._node_to_qubit),
                 np.copy(self._qubit_targets), np.copy(self._circuit_progress),
                 np.copy(self._locked_edges))
  def __eq__(self, other):
      return np.array_equal(self._node_to_qubit, other._node_to_qubit) and \
             np.array_equal(self._qubit_targets, other._qubit_targets) and \
             np.array_equal(self._circuit_progress, other._circuit_progress) and \
             np.array_equal(self._locked_edges, other._locked_edges)
  \<close>
\<close>

type_synonym store = "int list list"

record state_obj =
  o_circuit :: circuit
  o_device :: device
  o_node_to_qubit :: nat
  o_qubit_targets :: nat
  o_circuit_progress :: nat
  o_locked_edges :: nat

definition np_copy :: "store \<Rightarrow> nat \<Rightarrow> nat \<times> store" where
  "np_copy h a = (length h, h @ [h ! a])"

definition state_copy :: "store \<Rightarrow> state_obj \<Rightarrow> state_obj \<times> store" where
  "state_copy h ob =
     (case np_copy h (o_node_to_qubit ob) of (a1, h1) \<Rightarrow>
      case np_copy h1 (o_qubit_targets ob) of (a2, h2) \<Rightarrow>
      case np_copy h2 (o_circuit_progress ob) of (a3, h3) \<Rightarrow>
      case np_copy h3 (o_locked_edges ob) of (a4, h4) \<Rightarrow>
        (\<lparr>o_circuit = o_circuit ob, o_device = o_device ob, o_node_to_qubit = a1,
          o_qubit_targets = a2, o_circuit_progress = a3, o_locked_edges = a4\<rparr>, h4))"

definition state_eq :: "store \<Rightarrow> state_obj \<Rightarrow> state_obj \<Rightarrow> bool" where
  "state_eq h a b =
     (h ! o_node_to_qubit a = h ! o_node_to_qubit b \<and>
      h ! o_qubit_targets a = h ! o_qubit_targets b \<and>
      h ! o_circuit_progress a = h ! o_circuit_progress b \<and>
      h ! o_locked_edges a = h ! o_locked_edges b)"

text \<open>The addresses a state object holds, and whether they are arrays of the store.\<close>

definition obj_arrays :: "state_obj \<Rightarrow> nat list" where
  "obj_arrays ob =
     [o_node_to_qubit ob, o_qubit_targets ob, o_circuit_progress ob, o_locked_edges ob]"

definition obj_in_store :: "store \<Rightarrow> state_obj \<Rightarrow> bool" where
  "obj_in_store h ob = list_all (\<lambda>a. a < length h) (obj_arrays ob)"

text \<open>A method run on a state object reads the object's four arrays, runs as above and
  leaves its writes in the same four arrays.\<close>

definition load :: "store \<Rightarrow> state_obj \<Rightarrow> circuit_state" where
  "load h ob =
     \<lparr>s_node_to_qubit = h ! o_node_to_qubit ob, s_qubit_targets = h ! o_qubit_targets ob,
      s_circuit_progress = h ! o_circuit_progress ob, s_locked_edges = h ! o_locked_edges ob\<rparr>"

definition write_back :: "store \<Rightarrow> state_obj \<Rightarrow> circuit_state \<Rightarrow> store" where
  "write_back h ob st =
     h[o_node_to_qubit ob := s_node_to_qubit st,
       o_qubit_targets ob := s_qubit_targets st,
       o_circuit_progress ob := s_circuit_progress st,
       o_locked_edges ob := s_locked_edges st]"

definition obj_execute_swap ::
  "store \<Rightarrow> state_obj \<Rightarrow> bool list \<Rightarrow> (error + edge list) \<times> store" where
  "obj_execute_swap h ob solution =
     (case execute_swap (o_device ob) (load h ob) solution of
        (r, st) \<Rightarrow> (r, write_back h ob st))"

definition obj_execute_cnot :: "store \<Rightarrow> state_obj \<Rightarrow> (error + edge list) \<times> store" where
  "obj_execute_cnot h ob =
     (case execute_cnot (o_device ob) (o_circuit ob) (load h ob) of
        (r, st) \<Rightarrow> (r, write_back h ob st))"

definition obj_update_locks ::
  "store \<Rightarrow> state_obj \<Rightarrow> int list option \<Rightarrow> int option \<Rightarrow> (error + unit) \<times> store" where
  "obj_update_locks h ob msk multiplier =
     (case update_locks (load h ob) msk multiplier of
        (r, st) \<Rightarrow> (r, write_back h ob st))"

section \<open>The annealing search\<close>

subsection \<open>What the search reads from the state\<close>

text \<open>
  \<^verbatim>\<open>AnnealerDQN\<close> calls \<^verbatim>\<open>current_state.swappable_edges(solution)\<close> and reads
  \<^verbatim>\<open>current_state.protected_edges\<close>; neither is defined in \<^verbatim>\<open>state.py\<close>.
  A solution of the search is an array of zeros and ones; an edge is selected when its
  entry is one.
\<close>

definition edge_selected :: "int list \<Rightarrow> nat \<Rightarrow> bool" where
  "edge_selected solution j = (j < length solution \<and> solution ! j = 1)"

definition edge_locked :: "circuit_state \<Rightarrow> nat \<Rightarrow> bool" where
  "edge_locked st i = (i < length (s_locked_edges st) \<and> s_locked_edges st ! i > 0)"

text \<open>
  Modelled from the spec: the method \<^verbatim>\<open>swappable_edges\<close> of the routing state is
  missing. The specification's eligibility rule: an edge is eligible to flip only if neither
  end node is already committed to a different selected edge, and the edge itself is not
  locked. The result lists the indices of the eligible edges.
\<close>

definition swappable_edges :: "device \<Rightarrow> circuit_state \<Rightarrow> int list \<Rightarrow> nat list" where
  "swappable_edges dev st solution =
     filter
       (\<lambda>i. \<not> edge_locked st i \<and>
            list_all
              (\<lambda>j. j = i \<or> \<not> edge_selected solution j \<or>
                   edges_disjoint (edges dev ! i) (edges dev ! j))
              [0..<length (edges dev)])
       [0..<length (edges dev)]"

text \<open>
  Modelled from the spec: the property \<^verbatim>\<open>protected_edges\<close> of the routing state is
  missing. The specification's validity check forbids the edges of the locked set, which
  is the mask of the positive lock counters.
\<close>

definition protected_edges :: "circuit_state \<Rightarrow> bool list" where
  "protected_edges st = locked_edges st"

text \<open>What the specification requires of a solution of the search: one entry, zero or
  one, for every edge of the device; no selected edge is locked; no two selected edges
  have a node in common.\<close>

definition valid_solution :: "device \<Rightarrow> circuit_state \<Rightarrow> int list \<Rightarrow> bool" where
  "valid_solution dev st solution =
     (length solution = length (edges dev) \<and>
      list_all (\<lambda>b. b = 0 \<or> b = 1) solution \<and>
      list_all (\<lambda>i. solution ! i = 1 \<longrightarrow> \<not> edge_locked st i) [0..<length solution] \<and>
      list_all
        (\<lambda>i. list_all
               (\<lambda>j. i \<noteq> j \<and> solution ! i = 1 \<and> solution ! j = 1 \<longrightarrow>
                    edges_disjoint (edges dev ! i) (edges dev ! j))
               [0..<length solution])
        [0..<length solution])"

subsection \<open>\<^verbatim>\<open>check_valid_solution\<close>\<close>

text \<open>
  \<^verbatim>\<open>
  for i in range(len(solution)):
      if forced_mask[i] and solution[i] == 1:
          raise RuntimeError('Solution is not safe: Protected edge is being swapped')
  if 1 in solution:
      swap_edge_indices = np.where(np.array(solution) == 1)[0]
      swap_edges = [self.device.edges[index] for index in swap_edge_indices]
      swap_nodes = [node for edge in swap_edges for node in edge]
      seen = set()
      for node in swap_nodes:
          if node in seen:
              raise RuntimeError('Solution is not safe: Same node is being used twice in %s'
                                 % str(swap_edges))
          seen.add(node)
  \<close>
  The second message ends with the printed list of edges, which the model leaves out.
\<close>

fun check_protected :: "nat list \<Rightarrow> int list \<Rightarrow> bool list \<Rightarrow> error + unit" where
  "check_protected [] solution forced_mask = Inr ()"
| "check_protected (i # rest) solution forced_mask =
     (case py_get forced_mask (int i) of
        Inl e \<Rightarrow> Inl e
      | Inr m \<Rightarrow>
          if m \<and> solution ! i = 1
          then Inl (RuntimeError ''Solution is not safe: Protected edge is being swapped'')
          else check_protected rest solution forced_mask)"

fun lookup_edges :: "edge list \<Rightarrow> nat list \<Rightarrow> error + edge list" where
  "lookup_edges es [] = Inr []"
| "lookup_edges es (i # rest) =
     (case py_get es (int i) of
        Inl e \<Rightarrow> Inl e
      | Inr edge \<Rightarrow>
          (case lookup_edges es rest of Inl e \<Rightarrow> Inl e | Inr found \<Rightarrow> Inr (edge # found)))"

fun check_seen :: "int list \<Rightarrow> int list \<Rightarrow> error + unit" where
  "check_seen [] seen = Inr ()"
| "check_seen (node # rest) seen =
     (if node \<in> set seen
      then Inl (RuntimeError ''Solution is not safe: Same node is being used twice in '')
      else check_seen rest (node # seen))"

definition check_valid_solution :: "device \<Rightarrow> int list \<Rightarrow> bool list \<Rightarrow> error + unit" where
  "check_valid_solution dev solution forced_mask =
     (case check_protected [0..<length solution] solution forced_mask of
        Inl e \<Rightarrow> Inl e
      | Inr u \<Rightarrow>
          if 1 \<in> set solution then
            (case lookup_edges (edges dev) (filter (\<lambda>i. solution ! i = 1) [0..<length solution]) of
               Inl e \<Rightarrow> Inl e
             | Inr swap_edges \<Rightarrow> check_seen (concat (map (\<lambda>e. [fst e, snd e]) swap_edges)) [])
          else Inr ())"

subsection \<open>\<^verbatim>\<open>generate_initial_solution\<close> and \<^verbatim>\<open>get_neighbour_solution\<close>\<close>

text \<open>
  The random choice \<^verbatim>\<open>np.random.choice(available_edges)\<close> is made by a number \<open>r\<close>
  that the caller supplies: the entry chosen is the one at position \<open>r mod len\<close>, so that
  all choices are covered as \<open>r\<close> ranges over the naturals.
  \<^verbatim>\<open>
  initial_solution = np.zeros(len(self.device.edges))
  available_edges = current_state.swappable_edges(initial_solution)
  if available_edges is None or len(available_edges) == 0:
      return initial_solution
  edge_index_to_swap = np.random.choice(available_edges)
  initial_solution[edge_index_to_swap] = (initial_solution[edge_index_to_swap] + 1) % 2
  return initial_solution
  \<close>
\<close>

definition flip_edge :: "int list \<Rightarrow> nat \<Rightarrow> error + int list" where
  "flip_edge solution idx =
     (case py_get solution (int idx) of
        Inl e \<Rightarrow> Inl e
      | Inr b \<Rightarrow> py_set solution (int idx) ((b + 1) mod 2))"

definition generate_initial_solution :: "device \<Rightarrow> circuit_state \<Rightarrow> nat \<Rightarrow> error + int list" where
  "generate_initial_solution dev st r =
     (let initial_solution = replicate (length (edges dev)) 0;
          available_edges = swappable_edges dev st initial_solution
      in if available_edges = [] then Inr initial_solution
         else flip_edge initial_solution (available_edges ! (r mod length available_edges)))"

text \<open>
  \<^verbatim>\<open>
  neighbour_solution = copy.copy(current_solution)
  available_edges = current_state.swappable_edges(neighbour_solution)
  if available_edges is None or len(available_edges) == 0:
      raise RuntimeError("Ran out of edges to swap")
  edge_index_to_swap = np.random.choice(available_edges, 1)
  neighbour_solution[edge_index_to_swap] = (neighbour_solution[edge_index_to_swap] + 1) % 2
  self.check_valid_solution(neighbour_solution, current_state.protected_edges)
  return neighbour_solution
  \<close>
\<close>

definition get_neighbour_solution ::
  "device \<Rightarrow> circuit_state \<Rightarrow> int list \<Rightarrow> nat \<Rightarrow> error + int list" where
  "get_neighbour_solution dev st current r =
     (let available_edges = swappable_edges dev st current
      in if available_edges = [] then Inl (RuntimeError ''Ran out of edges to swap'')
         else
           (case flip_edge current (available_edges ! (r mod length available_edges)) of
              Inl e \<Rightarrow> Inl e
            | Inr neighbour_solution \<Rightarrow>
                (case check_valid_solution dev neighbour_solution (protected_edges st) of
                   Inl e \<Rightarrow> Inl e
                 | Inr u \<Rightarrow> Inr neighbour_solution)))"

subsection \<open>\<^verbatim>\<open>simulated_annealing\<close>\<close>

text \<open>
  The hyper-parameters of \<^verbatim>\<open>__init__\<close>. Temperatures and energies are floating-point
  numbers in the source and real numbers here.
\<close>

definition initial_temperature :: real where
  "initial_temperature = 60"

definition min_temperature :: real where
  "min_temperature = 1 / 10"

definition cooling_multiplier :: real where
  "cooling_multiplier = 95 / 100"

text \<open>
  \<^verbatim>\<open>
  if new_energy < current_energy:
      return 1
  else:
      energy_diff = new_energy - current_energy
      probability = math.exp(-energy_diff/temperature)
      return probability
  \<close>
\<close>

definition acceptance_probability :: "real \<Rightarrow> real \<Rightarrow> real \<Rightarrow> real" where
  "acceptance_probability current_energy new_energy temperature =
     (if new_energy < current_energy then 1
      else exp (- (new_energy - current_energy) / temperature))"

text \<open>
  The energy oracle \<^verbatim>\<open>get_energy(solution, current_state, action_chooser)\<close> runs the
  environment's step function and the agent's model, both outside this file. It is a
  parameter of the search: a function that, besides the energy, returns the oracle's own
  state after the call (for instance the number of calls so far), which the search hands
  to the next call. It does not change the routing state it is given.

  The random numbers are parameters too: \<open>picks k\<close> decides the \<open>k\<close>-th call of
  \<^verbatim>\<open>np.random.choice\<close> (call \<open>0\<close> for the initial candidate, call \<open>k + 1\<close> in
  iteration \<open>k\<close>) and \<open>unif k\<close> is the value of \<^verbatim>\<open>np.random.random()\<close> in
  iteration \<open>k\<close>.

  The local variables of the loop:
\<close>

record 'o sa_vars =
  temp :: real
  current_solution :: "int list"
  current_energy :: real
  best_solution :: "int list"
  best_energy :: real
  iterations_since_best :: nat
  iterations :: nat
  oracle_state :: 'o

type_synonym 'o energy_oracle = "int list \<Rightarrow> circuit_state \<Rightarrow> string \<Rightarrow> 'o \<Rightarrow> real \<times> 'o"

text \<open>
  One pass through the body of the loop:
  \<^verbatim>\<open>
  new_solution = self.get_neighbour_solution(current_solution, current_state)
  new_energy = self.get_energy(new_solution, current_state=current_state,
                               action_chooser=action_chooser)
  accept_prob = self.acceptance_probability(current_energy, new_energy, temp)
  if accept_prob > np.random.random():
      current_solution = new_solution
      current_energy = new_energy
      if current_energy < best_energy:
          best_solution = copy.copy(current_solution)
          best_energy = current_energy
          iterations_since_best = 0
  temp = temp * self.cooling_multiplier
  iterations_since_best += 1
  iterations += 1
  \<close>
\<close>

definition sa_accept :: "'o sa_vars \<Rightarrow> int list \<Rightarrow> real \<Rightarrow> real \<Rightarrow> 'o sa_vars" where
  "sa_accept v new_solution new_energy u =
     (if acceptance_probability (current_energy v) new_energy (temp v) > u then
        (if new_energy < best_energy v
         then v\<lparr>current_solution := new_solution, current_energy := new_energy,
                best_solution := new_solution, best_energy := new_energy,
                iterations_since_best := 0\<rparr>
         else v\<lparr>current_solution := new_solution, current_energy := new_energy\<rparr>)
      else v)"

definition sa_body ::
  "device \<Rightarrow> circuit_state \<Rightarrow> 'o energy_oracle \<Rightarrow> string \<Rightarrow> (nat \<Rightarrow> nat) \<Rightarrow> (nat \<Rightarrow> real)
     \<Rightarrow> 'o sa_vars \<Rightarrow> error + 'o sa_vars" where
  "sa_body dev st get_energy action_chooser picks unif v =
     (case get_neighbour_solution dev st (current_solution v) (picks (Suc (iterations v))) of
        Inl e \<Rightarrow> Inl e
      | Inr new_solution \<Rightarrow>
          (case get_energy new_solution st action_chooser (oracle_state v) of
             (new_energy, o1) \<Rightarrow>
               (let v1 = sa_accept v new_solution new_energy (unif (iterations v))
                in Inr (v1\<lparr>temp := temp v * cooling_multiplier,
                           iterations_since_best := iterations_since_best v1 + 1,
                           iterations := iterations v + 1,
                           oracle_state := o1\<rparr>))))"

text \<open>
  \<^verbatim>\<open>
  while temp > self.min_temperature:
      if search_limit is not None and iterations > search_limit:
          break
      ...
  \<close>
  The loop returns its variables as they are when it ends, together with the exception that
  ended it, if one did.
\<close>

definition over_limit :: "int option \<Rightarrow> nat \<Rightarrow> bool" where
  "over_limit search_limit n = (case search_limit of None \<Rightarrow> False | Some l \<Rightarrow> int n > l)"

lemma sa_body_temp:
  "sa_body dev st get_energy action_chooser picks unif v = Inr v1 \<Longrightarrow>
   temp v1 = temp v * cooling_multiplier \<and> iterations v1 = Suc (iterations v)"
  by (auto simp: sa_body_def Let_def split: sum.splits prod.splits)

lemma cooling_step:
  fixes t c m :: real
  assumes "m < t" and "0 < m" and "0 < c" and "c < 1"
  shows "nat \<lceil>ln (t * c / m) / ln (1 / c)\<rceil> < nat \<lceil>ln (t / m) / ln (1 / c)\<rceil>"
proof -
  define d where "d = ln (1 / c)"
  have dpos: "0 < d"
    unfolding d_def using assms by simp
  have q: "1 < t / m"
    using assms by simp
  then have qpos: "0 < t / m" by linarith
  have tm: "t \<noteq> 0" "m \<noteq> 0" "c \<noteq> 0"
    using assms by simp_all
  have "t * c / m = (t / m) * c" by simp
  then have "ln (t * c / m) = ln (t / m) + ln c"
    using ln_mult [of "t / m" c] tm by simp
  moreover have "ln c = - d"
    unfolding d_def using assms by (simp add: ln_div)
  ultimately have "ln (t * c / m) / d = ln (t / m) / d - 1"
    using dpos by (simp add: field_simps)
  moreover have "0 < ln (t / m) / d"
    using q dpos by simp
  ultimately have "\<lceil>ln (t * c / m) / d\<rceil> = \<lceil>ln (t / m) / d\<rceil> - 1" and "0 < \<lceil>ln (t / m) / d\<rceil>"
    by simp_all
  then show ?thesis
    unfolding d_def by simp
qed

lemma cooling_measure:
  assumes "min_temperature < t"
  shows "nat \<lceil>ln (t * cooling_multiplier / min_temperature) / ln (1 / cooling_multiplier)\<rceil>
       < nat \<lceil>ln (t / min_temperature) / ln (1 / cooling_multiplier)\<rceil>"
  using assms by (intro cooling_step) (simp_all add: min_temperature_def cooling_multiplier_def)

function sa_loop ::
  "device \<Rightarrow> circuit_state \<Rightarrow> 'o energy_oracle \<Rightarrow> string \<Rightarrow> (nat \<Rightarrow> nat) \<Rightarrow> (nat \<Rightarrow> real)
     \<Rightarrow> int option \<Rightarrow> 'o sa_vars \<Rightarrow> error option \<times> 'o sa_vars" where
  "sa_loop dev st get_energy action_chooser picks unif search_limit v =
     (if temp v > min_temperature then
        (if over_limit search_limit (iterations v) then (None, v)
         else
           (case sa_body dev st get_energy action_chooser picks unif v of
              Inl e \<Rightarrow> (Some e, v)
            | Inr v1 \<Rightarrow> sa_loop dev st get_energy action_chooser picks unif search_limit v1))
      else (None, v))"
  by pat_completeness auto
termination
proof (relation "measure (\<lambda>(dev, st, get_energy, action_chooser, picks, unif, search_limit, v).
    nat \<lceil>ln (temp v / min_temperature) / ln (1 / cooling_multiplier)\<rceil>)", goal_cases)
  case 1
  show ?case by simp
next
  case (2 dev st get_energy action_chooser picks unif search_limit v v1)
  from sa_body_temp [OF 2(3)] cooling_measure [OF 2(1)] show ?case by simp
qed

declare sa_loop.simps [simp del]

text \<open>
  \<^verbatim>\<open>
  temp_state = copy.copy(current_state)
  current_solution = self.generate_initial_solution(current_state)
  new_state = copy.copy(current_state)
  assert temp_state == new_state, "State not preserved when selecting action"
  if np.all(current_solution == 0):
      if action_chooser == 'model':
          return current_solution, -np.inf
      else:
          return current_solution, 0
  temp = self.initial_temperature
  current_energy = self.get_energy(current_solution, current_state=current_state,
                                   action_chooser=action_chooser)
  best_solution = copy.copy(current_solution)
  best_energy = current_energy
  iterations_since_best = 0
  iterations = 0
  while ...
  return best_solution, best_energy
  \<close>
  The result is the exception or the returned pair, and the oracle's state at the end.
\<close>

datatype score = NegInf | Finite real

definition sa_start ::
  "circuit_state \<Rightarrow> 'o energy_oracle \<Rightarrow> string \<Rightarrow> 'o \<Rightarrow> int list \<Rightarrow> 'o sa_vars" where
  "sa_start st get_energy action_chooser orc initial =
     (case get_energy initial st action_chooser orc of
        (energy, o1) \<Rightarrow>
          \<lparr>temp = initial_temperature, current_solution = initial, current_energy = energy,
           best_solution = initial, best_energy = energy, iterations_since_best = 0,
           iterations = 0, oracle_state = o1\<rparr>)"

definition simulated_annealing ::
  "device \<Rightarrow> circuit_state \<Rightarrow> 'o energy_oracle \<Rightarrow> string \<Rightarrow> (nat \<Rightarrow> nat) \<Rightarrow> (nat \<Rightarrow> real)
     \<Rightarrow> int option \<Rightarrow> 'o \<Rightarrow> (error + int list \<times> score) \<times> 'o" where
  "simulated_annealing dev st get_energy action_chooser picks unif search_limit orc =
     (let temp_state = st in
      case generate_initial_solution dev st (picks 0) of
        Inl e \<Rightarrow> (Inl e, orc)
      | Inr initial \<Rightarrow>
          (let new_state = st in
           if temp_state \<noteq> new_state
           then (Inl (AssertionError ''State not preserved when selecting action''), orc)
           else if list_all (\<lambda>x. x = 0) initial then
             (Inr (initial, if action_chooser = ''model'' then NegInf else Finite 0), orc)
           else
             (case sa_loop dev st get_energy action_chooser picks unif search_limit
                     (sa_start st get_energy action_chooser orc initial) of
                (Some e, v) \<Rightarrow> (Inl e, oracle_state v)
              | (None, v) \<Rightarrow> (Inr (best_solution v, Finite (best_energy v)), oracle_state v))))"

section \<open>Concrete devices and states\<close>

text \<open>A path of three nodes, \<open>0 - 1 - 2\<close>, and a state on it in which qubit \<open>2\<close> sits
  on node \<open>0\<close>, qubit \<open>0\<close> on node \<open>1\<close> and qubit \<open>1\<close> on node \<open>2\<close>.\<close>

definition path3 :: device where
  "path3 = \<lparr>dev_len = 3, edges = [(0, 1), (1, 2)],
             distances = [[0, 1, 2], [1, 0, 1], [2, 1, 0]]\<rparr>"

definition path3_state :: circuit_state where
  "path3_state = \<lparr>s_node_to_qubit = [2, 0, 1], s_qubit_targets = [1, 0, - 1],
                   s_circuit_progress = [0, 0, 0], s_locked_edges = [0, 0]\<rparr>"

text \<open>Two nodes joined by one edge, with qubit \<open>q\<close> on node \<open>q\<close> and both qubits
  finished.\<close>

definition pair2 :: device where
  "pair2 = \<lparr>dev_len = 2, edges = [(0, 1)], distances = [[0, 1], [1, 0]]\<rparr>"

definition pair2_done :: circuit_state where
  "pair2_done = \<lparr>s_node_to_qubit = [0, 1], s_qubit_targets = [- 1, - 1],
                  s_circuit_progress = [1, 1], s_locked_edges = [0]\<rparr>"

text \<open>A store holding the four arrays of the state on the path, and the state object
  that refers to them.\<close>

definition store4 :: store where
  "store4 = [[2, 0, 1], [1, 0, - 1], [0, 0, 0], [0, 0]]"

definition path3_obj :: state_obj where
  "path3_obj = \<lparr>o_circuit = [[1], [0], []], o_device = path3, o_node_to_qubit = 0,
                 o_qubit_targets = 1, o_circuit_progress = 2, o_locked_edges = 3\<rparr>"

text \<open>An energy oracle that scores a solution by the number of edges it selects and
  counts its calls.\<close>

definition count_energy :: "int energy_oracle" where
  "count_energy solution st action_chooser n = (real_of_int (sum_list solution), n + 1)"

text \<open>The circuit on the path: qubits \<open>0\<close> and \<open>1\<close> interact once, qubit \<open>2\<close> has
  nothing to do.\<close>

definition path3_circuit :: circuit where
  "path3_circuit = [[1], [0], []]"

section \<open>Properties\<close>

subsection \<open>Indexing\<close>

lemma py_index_in_range: "0 \<le> i \<Longrightarrow> i < int n \<Longrightarrow> py_index n i = Some (nat i)"
  by (simp add: py_index_def)

lemma py_index_bound: "py_index n i = Some k \<Longrightarrow> k < n"
  by (auto simp: py_index_def split: if_splits)

lemma py_get_in_range: "0 \<le> i \<Longrightarrow> i < int (length xs) \<Longrightarrow> py_get xs i = Inr (xs ! nat i)"
  by (simp add: py_get_def py_index_in_range)

lemma py_set_in_range: "0 \<le> i \<Longrightarrow> i < int (length xs) \<Longrightarrow> py_set xs i v = Inr (xs[nat i := v])"
  by (simp add: py_set_def py_index_in_range)

lemma py_get_nat: "k < length xs \<Longrightarrow> py_get xs (int k) = Inr (xs ! k)"
  by (simp add: py_get_in_range)

lemma py_set_nat: "k < length xs \<Longrightarrow> py_set xs (int k) v = Inr (xs[k := v])"
  by (simp add: py_set_in_range)

subsection \<open>Swaps keep the mapping a permutation\<close>

lemma swap_loop_mset:
  "mset (snd (swap_loop ps ntq gates)) = mset ntq"
proof (induction ps arbitrary: ntq gates)
  case Nil
  then show ?case by simp
next
  case (Cons p ps)
  obtain edge sol where p: "p = (edge, sol)" by (cases p)
  show ?case
  proof (cases sol)
    case False
    with p Cons.IH show ?thesis by simp
  next
    case True
    show ?thesis
    proof (cases "py_index (length ntq) (snd edge)")
      case None
      with p True show ?thesis by (simp add: py_get_def)
    next
      case j: (Some j)
      show ?thesis
      proof (cases "py_index (length ntq) (fst edge)")
        case None
        with p True j show ?thesis by (simp add: py_get_def)
      next
        case i: (Some i)
        have bnd: "i < length ntq" "j < length ntq"
          using i j by (auto dest: py_index_bound)
        have "mset (ntq[i := ntq ! j, j := ntq ! i]) = mset ntq"
          using bnd by (simp add: mset_swap)
        moreover have "(ntq[i := ntq ! j]) [j := ntq ! i] = ntq[i := ntq ! j, j := ntq ! i]"
          by simp
        ultimately show ?thesis
          using p True i j Cons.IH [of "ntq[i := ntq ! j, j := ntq ! i]" "gates @ [edge]"]
          by (simp add: py_get_def py_set_def)
      qed
    qed
  qed
qed

lemma swap_loop_length: "length (snd (swap_loop ps ntq gates)) = length ntq"
  using swap_loop_mset [of ps ntq gates] by (metis size_mset)

lemma swap_loop_succeeds:
  "list_all (edge_in_range (length ntq)) (map fst ps) \<Longrightarrow>
   fst (swap_loop ps ntq gates) = Inr (gates @ map fst (filter snd ps))"
proof (induction ps arbitrary: ntq gates)
  case Nil
  then show ?case by simp
next
  case (Cons p ps)
  obtain edge sol where p: "p = (edge, sol)" by (cases p)
  from Cons.prems p have e: "edge_in_range (length ntq) edge"
    and rest: "list_all (edge_in_range (length ntq)) (map fst ps)" by simp_all
  show ?case
  proof (cases sol)
    case False
    with p rest Cons.IH show ?thesis by simp
  next
    case True
    let ?n1 = "nat (fst edge)" and ?n2 = "nat (snd edge)"
    let ?ntq2 = "ntq[?n1 := ntq ! ?n2, ?n2 := ntq ! ?n1]"
    have "length ?ntq2 = length ntq" by simp
    with rest have "list_all (edge_in_range (length ?ntq2)) (map fst ps)" by simp
    from Cons.IH [OF this, of "gates @ [edge]"] p True e show ?thesis
      by (simp add: edge_in_range_def py_get_in_range py_set_in_range)
  qed
qed

lemma is_permutation_mset: "mset ys = mset xs \<Longrightarrow> is_permutation xs \<Longrightarrow> is_permutation ys"
  unfolding is_permutation_def by (metis size_mset)

lemma list_all_zip_fst: "list_all P xs \<Longrightarrow> list_all P (map fst (zip xs ys))"
  by (auto simp: list_all_iff dest: set_zip_leftD)

lemma execute_swap_permutation:
  assumes "is_permutation (s_node_to_qubit st)"
  shows "is_permutation (s_node_to_qubit (snd (execute_swap dev st solution)))"
proof -
  have "mset (s_node_to_qubit (snd (execute_swap dev st solution))) = mset (s_node_to_qubit st)"
    using swap_loop_mset [of "zip (edges dev) solution" "s_node_to_qubit st" "[]"]
    by (simp add: execute_swap_def split_beta)
  then show ?thesis using assms by (rule is_permutation_mset)
qed

lemma execute_swap_returns:
  assumes "edges_in_range (length (s_node_to_qubit st)) (edges dev)"
  shows "fst (execute_swap dev st solution) = Inr (selected_edges (edges dev) solution)"
proof -
  have "list_all (edge_in_range (length (s_node_to_qubit st))) (map fst (zip (edges dev) solution))"
    using assms unfolding edges_in_range_def by (rule list_all_zip_fst)
  from swap_loop_succeeds [OF this, of "[]"] show ?thesis
    by (simp add: execute_swap_def selected_edges_def split_beta)
qed

text \<open>
  C1. If the mapping is a permutation of \<open>0, \<dots>, N - 1\<close>, the device's edges join nodes of
  the mapping and the edges the solution selects are vertex-disjoint, then
  \<^verbatim>\<open>execute_swap\<close> returns the selected edges and leaves a mapping that is again a
  permutation of \<open>0, \<dots>, N - 1\<close>.
\<close>

theorem execute_swap_keeps_permutation:
  assumes "is_permutation (s_node_to_qubit st)"
    and "edges_in_range (length (s_node_to_qubit st)) (edges dev)"
    and "vertex_disjoint (edges dev) solution"
  shows "fst (execute_swap dev st solution) = Inr (selected_edges (edges dev) solution)
       \<and> is_permutation (s_node_to_qubit (snd (execute_swap dev st solution)))
       \<and> length (s_node_to_qubit (snd (execute_swap dev st solution))) = length (s_node_to_qubit st)"
proof -
  have "length (s_node_to_qubit (snd (execute_swap dev st solution))) = length (s_node_to_qubit st)"
    using swap_loop_length [of "zip (edges dev) solution" "s_node_to_qubit st" "[]"]
    by (simp add: execute_swap_def split_beta)
  with execute_swap_returns [OF assms(2)] execute_swap_permutation [OF assms(1)]
  show ?thesis by simp
qed

theorem execute_swap_keeps_permutation_witness:
  "is_permutation (s_node_to_qubit path3_state)
   \<and> edges_in_range (length (s_node_to_qubit path3_state)) (edges path3)
   \<and> vertex_disjoint (edges path3) [True, False]
   \<and> fst (execute_swap path3 path3_state [True, False]) = Inr [(0, 1)]
   \<and> s_node_to_qubit (snd (execute_swap path3 path3_state [True, False])) = [0, 2, 1]
   \<and> is_permutation (s_node_to_qubit (snd (execute_swap path3 path3_state [True, False])))"
proof -
  have h1: "is_permutation (s_node_to_qubit path3_state)"
    by (simp add: path3_state_def is_permutation_def)
  have h2: "edges_in_range (length (s_node_to_qubit path3_state)) (edges path3)"
    by (simp add: path3_state_def path3_def edges_in_range_def edge_in_range_def)
  have h3: "vertex_disjoint (edges path3) [True, False]"
    by (simp add: path3_def vertex_disjoint_def selected_edges_def)
  have run: "execute_swap path3 path3_state [True, False]
      = (Inr [(0, 1)], path3_state\<lparr>s_node_to_qubit := [0, 2, 1]\<rparr>)"
    by (simp add: execute_swap_def path3_def path3_state_def py_get_def py_set_def py_index_def)
  from execute_swap_keeps_permutation [OF h1 h2 h3] h1 h2 h3 run show ?thesis
    by simp
qed

subsection \<open>Lock decay\<close>

lemma decay_lock_nonneg: "0 \<le> e \<Longrightarrow> decay_lock e = max (e - 1) 0"
  by (simp add: decay_lock_def)

text \<open>
  C9. On a lock vector whose counters are not negative (the data invariant of the lock
  vector), \<^verbatim>\<open>update_locks()\<close> without a mask returns normally and maps every counter
  \<open>e\<close> to \<open>max (e - 1) 0\<close>: a positive counter loses exactly one, no counter is negative
  afterwards, an all-zero vector is left as it is, and the other three arrays are untouched.
\<close>

theorem update_locks_decay:
  assumes "\<forall>e \<in> set (s_locked_edges st). 0 \<le> e"
  shows "fst (update_locks st None multiplier) = Inr ()
       \<and> s_locked_edges (snd (update_locks st None multiplier))
           = map (\<lambda>e. max (e - 1) 0) (s_locked_edges st)
       \<and> (\<forall>i < length (s_locked_edges st). 0 < s_locked_edges st ! i \<longrightarrow>
            s_locked_edges (snd (update_locks st None multiplier)) ! i = s_locked_edges st ! i - 1)
       \<and> (\<forall>e \<in> set (s_locked_edges (snd (update_locks st None multiplier))). 0 \<le> e)
       \<and> ((\<forall>e \<in> set (s_locked_edges st). e = 0) \<longrightarrow> snd (update_locks st None multiplier) = st)
       \<and> s_node_to_qubit (snd (update_locks st None multiplier)) = s_node_to_qubit st
       \<and> s_qubit_targets (snd (update_locks st None multiplier)) = s_qubit_targets st
       \<and> s_circuit_progress (snd (update_locks st None multiplier)) = s_circuit_progress st"
proof -
  let ?l = "s_locked_edges st"
  have res: "snd (update_locks st None multiplier) = st\<lparr>s_locked_edges := map decay_lock ?l\<rparr>"
    and ok: "fst (update_locks st None multiplier) = Inr ()"
    by (simp_all add: update_locks_def)
  have eq: "map decay_lock ?l = map (\<lambda>e. max (e - 1) 0) ?l"
    using assms by (simp add: decay_lock_nonneg)
  have pos: "\<forall>i < length ?l. 0 < ?l ! i \<longrightarrow> map decay_lock ?l ! i = ?l ! i - 1"
    by (simp add: decay_lock_def)
  have nonneg: "\<forall>e \<in> set (map decay_lock ?l). 0 \<le> e"
    using assms by (auto simp: decay_lock_def)
  have "xs = map decay_lock xs" if "\<forall>e \<in> set xs. e = 0" for xs
    using that by (induction xs) (simp_all add: decay_lock_def)
  then have zero: "(\<forall>e \<in> set ?l. e = 0) \<longrightarrow> map decay_lock ?l = ?l"
    by metis
  show ?thesis
    using ok eq pos nonneg zero by (simp add: res)
qed

theorem update_locks_decay_witness:
  "list_all (\<lambda>e. 0 \<le> e) (s_locked_edges (path3_state\<lparr>s_locked_edges := [3, 0]\<rparr>))
   \<and> update_locks (path3_state\<lparr>s_locked_edges := [3, 0]\<rparr>) None None
       = (Inr (), path3_state\<lparr>s_locked_edges := [2, 0]\<rparr>)
   \<and> update_locks path3_state None None = (Inr (), path3_state)"
proof -
  have h: "\<forall>e \<in> set (s_locked_edges (path3_state\<lparr>s_locked_edges := [3, 0]\<rparr>)). 0 \<le> e"
    by simp
  have h0: "\<forall>e \<in> set (s_locked_edges path3_state). 0 \<le> e"
    by (simp add: path3_state_def)
  have z: "\<forall>e \<in> set (s_locked_edges path3_state). e = 0"
    by (simp add: path3_state_def)
  from update_locks_decay [OF h, of None] update_locks_decay [OF h0, of None] z h
  show ?thesis
    by (simp add: prod_eq_iff circuit_state.equality)
qed

subsection \<open>\<^verbatim>\<open>execute_swap\<close> checks nothing; the caller asserts\<close>

lemma execute_swap_frame:
  "s_qubit_targets (snd (execute_swap dev st solution)) = s_qubit_targets st
   \<and> s_circuit_progress (snd (execute_swap dev st solution)) = s_circuit_progress st
   \<and> s_locked_edges (snd (execute_swap dev st solution)) = s_locked_edges st"
  by (simp add: execute_swap_def split_beta)

lemma execute_swap_ignores_locks:
  "execute_swap dev (st\<lparr>s_locked_edges := l\<rparr>) solution
     = (fst (execute_swap dev st solution), (snd (execute_swap dev st solution))\<lparr>s_locked_edges := l\<rparr>)"
  by (simp add: execute_swap_def split_beta)

lemma train_step_assert_iff:
  assumes "length action = length (s_locked_edges st)"
  shows "train_step_assert st action = Inl (AssertionError ''Bad Action'')
         \<longleftrightarrow> (\<exists>i < length action. action ! i \<and> 0 < s_locked_edges st ! i)"
proof -
  have "list_ex id (map2 (\<and>) (locked_edges st) action)
        \<longleftrightarrow> (\<exists>i < length action. locked_edges st ! i \<and> action ! i)"
    using assms by (auto simp: list_ex_iff set_zip locked_edges_def)
  moreover have "\<forall>i < length action. locked_edges st ! i = (0 < s_locked_edges st ! i)"
    using assms by (simp add: locked_edges_def)
  ultimately show ?thesis
    using assms by (auto simp: train_step_assert_def np_broadcast_def locked_edges_def)
qed

lemma swap_loop_result:
  "list_all (edge_in_range (length ntq)) (map fst ps) \<Longrightarrow>
   snd (swap_loop ps ntq gates) = apply_swaps (map fst (filter snd ps)) ntq"
proof (induction ps arbitrary: ntq gates)
  case Nil
  then show ?case by (simp add: apply_swaps_def)
next
  case (Cons p ps)
  obtain edge sol where p: "p = (edge, sol)" by (cases p)
  from Cons.prems p have e: "edge_in_range (length ntq) edge"
    and rest: "list_all (edge_in_range (length ntq)) (map fst ps)" by simp_all
  show ?case
  proof (cases sol)
    case False
    with p rest Cons.IH show ?thesis by simp
  next
    case True
    have "length (transpose_at edge ntq) = length ntq"
      by (simp add: transpose_at_def)
    with rest have "list_all (edge_in_range (length (transpose_at edge ntq))) (map fst ps)"
      by simp
    from Cons.IH [OF this, of "gates @ [edge]"] p True e show ?thesis
      by (simp add: edge_in_range_def py_get_in_range py_set_in_range transpose_at_def
          apply_swaps_def)
  qed
qed

lemma execute_swap_mapping:
  assumes "edges_in_range (length (s_node_to_qubit st)) (edges dev)"
  shows "s_node_to_qubit (snd (execute_swap dev st solution))
           = apply_swaps (selected_edges (edges dev) solution) (s_node_to_qubit st)"
proof -
  have "list_all (edge_in_range (length (s_node_to_qubit st))) (map fst (zip (edges dev) solution))"
    using assms unfolding edges_in_range_def by (rule list_all_zip_fst)
  from swap_loop_result [OF this, of "[]"] show ?thesis
    by (simp add: execute_swap_def selected_edges_def split_beta)
qed

text \<open>
  C4, as the code has it. \<^verbatim>\<open>execute_swap\<close> validates nothing: on a device whose edges
  join nodes of the mapping it returns normally for every solution, whatever the lock
  counters and whether or not selected edges share a node; the mapping it leaves is the
  one obtained by exchanging the two qubits of every selected edge, one edge after the
  other in edge order; it never reads or writes the lock counters, and leaves a permutation
  when it was given one. Rejecting a locked edge is the caller's part: the assertion of
  \<^verbatim>\<open>train_step\<close> fails (with \<^verbatim>\<open>AssertionError\<close>) exactly when the action selects an
  edge whose lock counter is positive.
\<close>

theorem execute_swap_unchecked:
  assumes "edges_in_range (length (s_node_to_qubit st)) (edges dev)"
  shows "fst (execute_swap dev st solution) = Inr (selected_edges (edges dev) solution)
       \<and> s_node_to_qubit (snd (execute_swap dev st solution))
           = apply_swaps (selected_edges (edges dev) solution) (s_node_to_qubit st)
       \<and> s_qubit_targets (snd (execute_swap dev st solution)) = s_qubit_targets st
       \<and> s_circuit_progress (snd (execute_swap dev st solution)) = s_circuit_progress st
       \<and> s_locked_edges (snd (execute_swap dev st solution)) = s_locked_edges st
       \<and> execute_swap dev (st\<lparr>s_locked_edges := l\<rparr>) solution
           = (fst (execute_swap dev st solution),
              (snd (execute_swap dev st solution))\<lparr>s_locked_edges := l\<rparr>)
       \<and> (is_permutation (s_node_to_qubit st) \<longrightarrow>
            is_permutation (s_node_to_qubit (snd (execute_swap dev st solution))))
       \<and> (length action = length (s_locked_edges st) \<longrightarrow>
            (train_step_assert st action = Inl (AssertionError ''Bad Action'')
             \<longleftrightarrow> (\<exists>i < length action. action ! i \<and> 0 < s_locked_edges st ! i)))"
proof -
  note ret = execute_swap_returns [OF assms, of solution]
    and mapping = execute_swap_mapping [OF assms, of solution]
  have perm: "is_permutation (s_node_to_qubit st) \<longrightarrow>
      is_permutation (s_node_to_qubit (snd (execute_swap dev st solution)))"
    using execute_swap_permutation by blast
  have caller: "length action = length (s_locked_edges st) \<longrightarrow>
      (train_step_assert st action = Inl (AssertionError ''Bad Action'')
       \<longleftrightarrow> (\<exists>i < length action. action ! i \<and> 0 < s_locked_edges st ! i))"
    using train_step_assert_iff by blast
  have locks: "execute_swap dev (st\<lparr>s_locked_edges := l\<rparr>) solution
      = (fst (execute_swap dev st solution),
         (snd (execute_swap dev st solution))\<lparr>s_locked_edges := l\<rparr>)"
    by (rule execute_swap_ignores_locks)
  have frame: "s_qubit_targets (snd (execute_swap dev st solution)) = s_qubit_targets st"
    "s_circuit_progress (snd (execute_swap dev st solution)) = s_circuit_progress st"
    "s_locked_edges (snd (execute_swap dev st solution)) = s_locked_edges st"
    using execute_swap_frame by blast+
  from ret mapping frame locks perm caller show ?thesis
    by (intro conjI)
qed

text \<open>On the path \<open>0 - 1 - 2\<close>: with a lock of two steps on the edge \<open>0 - 1\<close>, a solution
  selecting that edge is swapped without any error, and so is a solution selecting both
  edges, which share node \<open>1\<close>.\<close>

theorem execute_swap_unchecked_counterexample:
  "0 < s_locked_edges (path3_state\<lparr>s_locked_edges := [2, 0]\<rparr>) ! 0
   \<and> execute_swap path3 (path3_state\<lparr>s_locked_edges := [2, 0]\<rparr>) [True, False]
       = (Inr [(0, 1)], path3_state\<lparr>s_node_to_qubit := [0, 2, 1], s_locked_edges := [2, 0]\<rparr>)
   \<and> \<not> vertex_disjoint (edges path3) [True, True]
   \<and> execute_swap path3 path3_state [True, True]
       = (Inr [(0, 1), (1, 2)], path3_state\<lparr>s_node_to_qubit := [0, 1, 2]\<rparr>)"
  by (simp add: execute_swap_def path3_def path3_state_def py_get_def py_set_def py_index_def
      vertex_disjoint_def selected_edges_def edges_disjoint_def)

theorem execute_swap_unchecked_witness:
  "edges_in_range (length (s_node_to_qubit (path3_state\<lparr>s_locked_edges := [2, 0]\<rparr>))) (edges path3)
   \<and> fst (execute_swap path3 (path3_state\<lparr>s_locked_edges := [2, 0]\<rparr>) [True, True])
       = Inr [(0, 1), (1, 2)]
   \<and> s_node_to_qubit (path3_state\<lparr>s_locked_edges := [2, 0]\<rparr>) = [2, 0, 1]
   \<and> apply_swaps [(0, 1), (1, 2)] [2, 0, 1] = [0, 1, 2]
   \<and> s_node_to_qubit (snd (execute_swap path3 (path3_state\<lparr>s_locked_edges := [2, 0]\<rparr>) [True, True]))
       = [0, 1, 2]
   \<and> s_locked_edges (snd (execute_swap path3 (path3_state\<lparr>s_locked_edges := [2, 0]\<rparr>) [True, True]))
       = [2, 0]
   \<and> is_permutation
        (s_node_to_qubit (snd (execute_swap path3 (path3_state\<lparr>s_locked_edges := [2, 0]\<rparr>) [True, True])))
   \<and> train_step_assert (path3_state\<lparr>s_locked_edges := [2, 0]\<rparr>) [True, True]
       = Inl (AssertionError ''Bad Action'')"
proof -
  let ?st = "path3_state\<lparr>s_locked_edges := [2, 0]\<rparr>"
  have h: "edges_in_range (length (s_node_to_qubit ?st)) (edges path3)"
    by (simp add: path3_state_def path3_def edges_in_range_def edge_in_range_def)
  have p: "is_permutation (s_node_to_qubit ?st)"
    by (simp add: path3_state_def is_permutation_def)
  have len: "length [True, True] = length (s_locked_edges ?st)"
    by simp
  have ex: "\<exists>i < length [True, True]. [True, True] ! i \<and> 0 < s_locked_edges ?st ! i"
    by (rule exI [of _ 0]) simp
  have sel: "selected_edges (edges path3) [True, True] = [(0, 1), (1, 2)]"
    by (simp add: selected_edges_def path3_def)
  have ntq: "s_node_to_qubit ?st = [2, 0, 1]"
    by (simp add: path3_state_def)
  have ap: "apply_swaps [(0, 1), (1, 2)] [2, 0, 1] = [0, 1, 2]"
    by (simp add: apply_swaps_def transpose_at_def)
  have p2: "is_permutation [0, 1, 2]"
    by (simp add: is_permutation_def)
  from execute_swap_unchecked [OF h, of "[True, True]" "[2, 0]" "[True, True]"] p p2 len ex sel h ntq ap
  show ?thesis by simp
qed

subsection \<open>The distance view\<close>

lemma inverse_loop_spec:
  assumes "\<forall>v \<in> set xs. 0 \<le> v \<and> v < int (length q)" and "distinct xs"
  shows "\<exists>q'. inverse_loop (enumerate k xs) q = Inr q' \<and> length q' = length q
          \<and> (\<forall>j < length xs. q' ! nat (xs ! j) = int (k + j))
          \<and> (\<forall>m < length q. int m \<notin> set xs \<longrightarrow> q' ! m = q ! m)"
  using assms
proof (induction xs arbitrary: k q)
  case Nil
  then show ?case by simp
next
  case (Cons x xs)
  let ?q1 = "q[nat x := int k]"
  from Cons.prems have x: "0 \<le> x" "x < int (length q)" and xs: "\<forall>v \<in> set xs. 0 \<le> v \<and> v < int (length ?q1)"
    and d: "distinct xs" "x \<notin> set xs" by simp_all
  from Cons.IH [OF xs d(1), of "Suc k"] obtain q' where
    q': "inverse_loop (enumerate (Suc k) xs) ?q1 = Inr q'" "length q' = length ?q1"
      "\<forall>j < length xs. q' ! nat (xs ! j) = int (Suc k + j)"
      "\<forall>m < length ?q1. int m \<notin> set xs \<longrightarrow> q' ! m = ?q1 ! m"
    by blast
  have run: "inverse_loop (enumerate k (x # xs)) q = Inr q'"
    using x q'(1) by (simp add: py_set_in_range)
  have here: "q' ! nat x = int k"
    using q'(4) x d(2) by simp
  have there: "\<forall>j < length (x # xs). q' ! nat ((x # xs) ! j) = int (k + j)"
  proof (intro allI impI)
    fix j assume "j < length (x # xs)"
    then show "q' ! nat ((x # xs) ! j) = int (k + j)"
      using here q'(3) by (cases j) simp_all
  qed
  have frame: "\<forall>m < length q. int m \<notin> set (x # xs) \<longrightarrow> q' ! m = q ! m"
    using q'(4) x by auto
  from run q'(2) there frame show ?case by simp
qed

lemma is_permutation_set: "is_permutation xs \<Longrightarrow> set xs = int ` {0..<length xs}"
  unfolding is_permutation_def by (drule mset_eq_setD) simp

lemma is_permutation_distinct: "is_permutation xs \<Longrightarrow> distinct xs"
proof -
  assume "is_permutation xs"
  then have "mset xs = mset (map int [0..<length xs])" by (simp add: is_permutation_def)
  moreover have "distinct (map int [0..<length xs])" by (simp add: distinct_map)
  ultimately show ?thesis by (metis mset_eq_imp_distinct_iff)
qed

lemma qubit_to_node_inverse:
  assumes "is_permutation (s_node_to_qubit st)"
  shows "\<exists>q2n. qubit_to_node st = Inr q2n \<and> length q2n = length (s_node_to_qubit st)
          \<and> (\<forall>i < length (s_node_to_qubit st). q2n ! nat (s_node_to_qubit st ! i) = int i)
          \<and> (\<forall>q < length (s_node_to_qubit st). 0 \<le> q2n ! q \<and> q2n ! q < int (length (s_node_to_qubit st)))"
proof -
  let ?xs = "s_node_to_qubit st" and ?n = "length (s_node_to_qubit st)"
  have set: "set ?xs = int ` {0..<?n}" and d: "distinct ?xs"
    using assms by (simp_all add: is_permutation_set is_permutation_distinct)
  have rng: "\<forall>v \<in> set ?xs. 0 \<le> v \<and> v < int (length (replicate ?n (0::int)))"
    using set by auto
  from inverse_loop_spec [OF rng d, of 0] obtain q2n where
    q: "inverse_loop (enumerate 0 ?xs) (replicate ?n 0) = Inr q2n" "length q2n = ?n"
       "\<forall>j < ?n. q2n ! nat (?xs ! j) = int j"
    by auto
  have "0 \<le> q2n ! q \<and> q2n ! q < int ?n" if "q < ?n" for q
  proof -
    from that set have "int q \<in> set ?xs" by simp
    then obtain i where "i < ?n" "?xs ! i = int q" by (auto simp: in_set_conv_nth)
    with q(3) show ?thesis by force
  qed
  with q show ?thesis by (simp add: qubit_to_node_def)
qed

lemma py_get_last: "0 < length xs \<Longrightarrow> py_get xs (- 1) = Inr (xs ! (length xs - 1))"
  by (cases xs) (auto simp: py_get_def py_index_def)

lemma distance_loop_spec:
  assumes "length q2n = n" and "\<forall>q < n. 0 \<le> q2n ! q \<and> q2n ! q < int n"
    and "length dm = n" and "\<forall>row \<in> set dm. length row = n"
    and "length td = n" and "k + length tg \<le> n"
    and "\<forall>t \<in> set tg. - 1 \<le> t \<and> t < int n"
  shows "\<exists>td'. distance_loop (enumerate k tg) dm q2n td = Inr td' \<and> length td' = n
          \<and> (\<forall>j < length tg. td' ! (k + j)
                = dm ! nat (q2n ! (k + j)) ! nat (q2n ! (if tg ! j = - 1 then n - 1 else nat (tg ! j))))
          \<and> (\<forall>m < k. td' ! m = td ! m)"
  using assms(5-7)
proof (induction tg arbitrary: k td)
  case Nil
  then show ?case by simp
next
  case (Cons t tg)
  let ?b = "if t = - 1 then n - 1 else nat t"
  let ?d = "dm ! nat (q2n ! k) ! nat (q2n ! ?b)"
  let ?td1 = "td[k := ?d]"
  from Cons.prems have k: "k < n" and t: "- 1 \<le> t" "t < int n" by simp_all
  have b: "?b < n" using k t by auto
  have geta: "py_get q2n (int k) = Inr (q2n ! k)"
    using k assms(1) by (simp add: py_get_nat)
  have getb: "py_get q2n t = Inr (q2n ! ?b)"
  proof (cases "t = - 1")
    case True
    then show ?thesis using k assms(1) py_get_last [of q2n] by simp
  next
    case False
    with t have "0 \<le> t" by simp
    with t False show ?thesis using assms(1) by (simp add: py_get_in_range)
  qed
  have qa: "0 \<le> q2n ! k" "q2n ! k < int n" and qb: "0 \<le> q2n ! ?b" "q2n ! ?b < int n"
    using assms(2) k b by blast+
  have row: "py_get dm (q2n ! k) = Inr (dm ! nat (q2n ! k))"
    using qa assms(3) by (simp add: py_get_in_range)
  have "dm ! nat (q2n ! k) \<in> set dm"
    using qa assms(3) by simp
  with assms(4) have "length (dm ! nat (q2n ! k)) = n" by blast
  then have cell: "py_get (dm ! nat (q2n ! k)) (q2n ! ?b) = Inr ?d"
    using qb by (simp add: py_get_in_range)
  have put: "py_set td (int k) ?d = Inr ?td1"
    using k Cons.prems(1) by (simp add: py_set_nat)
  have "length ?td1 = n" "Suc k + length tg \<le> n" "\<forall>t \<in> set tg. - 1 \<le> t \<and> t < int n"
    using Cons.prems by simp_all
  from Cons.IH [OF this] obtain td' where
    td': "distance_loop (enumerate (Suc k) tg) dm q2n ?td1 = Inr td'" "length td' = n"
      "\<forall>j < length tg. td' ! (Suc k + j)
          = dm ! nat (q2n ! (Suc k + j)) ! nat (q2n ! (if tg ! j = - 1 then n - 1 else nat (tg ! j)))"
      "\<forall>m < Suc k. td' ! m = ?td1 ! m"
    by blast
  have run: "distance_loop (enumerate k (t # tg)) dm q2n td = Inr td'"
    using geta getb row cell put td'(1) by simp
  have here: "td' ! k = ?d"
    using td'(4) k Cons.prems(1) by simp
  have every: "\<forall>j < length (t # tg). td' ! (k + j)
      = dm ! nat (q2n ! (k + j)) ! nat (q2n ! (if (t # tg) ! j = - 1 then n - 1 else nat ((t # tg) ! j)))"
  proof (intro allI impI)
    fix j assume "j < length (t # tg)"
    then show "td' ! (k + j)
      = dm ! nat (q2n ! (k + j)) ! nat (q2n ! (if (t # tg) ! j = - 1 then n - 1 else nat ((t # tg) ! j)))"
      using here td'(3) by (cases j) simp_all
  qed
  have before: "\<forall>m < k. td' ! m = td ! m"
    using td'(4) by simp
  from run td'(2) every before show ?case by blast
qed

text \<open>
  C10. In a state whose mapping is a permutation, whose targets are qubit numbers or the
  sentinel \<open>-1\<close>, on a device with an \<open>N \<times> N\<close> distance matrix, \<^verbatim>\<open>target_distance\<close>
  returns for every qubit \<open>q\<close> the entry of the matrix at the node of \<open>q\<close> and the node
  found by indexing \<^verbatim>\<open>qubit_to_node\<close> with the target of \<open>q\<close>; the sentinel is used
  as an index like any other and selects the last entry, the node of qubit \<open>N - 1\<close>. The
  reported distance of a finished qubit need not be zero: on two joined nodes with both
  qubits finished, qubit \<open>0\<close> reports distance one.
\<close>

theorem target_distance_indexes_sentinel:
  assumes "is_permutation (s_node_to_qubit st)"
    and "length (s_qubit_targets st) = length (s_node_to_qubit st)"
    and "\<forall>t \<in> set (s_qubit_targets st). - 1 \<le> t \<and> t < int (length (s_node_to_qubit st))"
    and "length (distances dev) = length (s_node_to_qubit st)"
    and "\<forall>row \<in> set (distances dev). length row = length (s_node_to_qubit st)"
  shows "(\<exists>q2n ds. qubit_to_node st = Inr q2n \<and> target_distance dev st = Inr ds
            \<and> length q2n = length (s_node_to_qubit st) \<and> length ds = length (s_node_to_qubit st)
            \<and> (\<forall>i < length (s_node_to_qubit st). q2n ! nat (s_node_to_qubit st ! i) = int i)
            \<and> (\<forall>q < length (s_node_to_qubit st).
                  ds ! q = distances dev ! nat (q2n ! q)
                             ! nat (q2n ! (if s_qubit_targets st ! q = - 1
                                           then length (s_node_to_qubit st) - 1
                                           else nat (s_qubit_targets st ! q)))))
       \<and> s_qubit_targets pair2_done = [- 1, - 1]
       \<and> target_distance pair2 pair2_done = Inr [1, 0]"
proof -
  let ?n = "length (s_node_to_qubit st)"
  from qubit_to_node_inverse [OF assms(1)] obtain q2n where
    q: "qubit_to_node st = Inr q2n" "length q2n = ?n"
       "\<forall>i < ?n. q2n ! nat (s_node_to_qubit st ! i) = int i"
       "\<forall>q < ?n. 0 \<le> q2n ! q \<and> q2n ! q < int ?n"
    by blast
  have len: "length (replicate ?n (0::int)) = ?n" "0 + length (s_qubit_targets st) \<le> ?n"
    using assms(2) by simp_all
  from distance_loop_spec [OF q(2) q(4) assms(4) assms(5) len assms(3)] obtain ds where
    d: "distance_loop (enumerate 0 (s_qubit_targets st)) (distances dev) q2n (replicate ?n 0) = Inr ds"
       "length ds = ?n"
       "\<forall>j < length (s_qubit_targets st). ds ! (0 + j)
          = distances dev ! nat (q2n ! (0 + j))
              ! nat (q2n ! (if s_qubit_targets st ! j = - 1 then ?n - 1 else nat (s_qubit_targets st ! j)))"
    by blast
  have run: "target_distance dev st = Inr ds"
    using q(1) d(1) by (simp add: target_distance_def)
  have general: "\<exists>q2n ds. qubit_to_node st = Inr q2n \<and> target_distance dev st = Inr ds
            \<and> length q2n = ?n \<and> length ds = ?n
            \<and> (\<forall>i < ?n. q2n ! nat (s_node_to_qubit st ! i) = int i)
            \<and> (\<forall>q < ?n.
                  ds ! q = distances dev ! nat (q2n ! q)
                             ! nat (q2n ! (if s_qubit_targets st ! q = - 1 then ?n - 1
                                           else nat (s_qubit_targets st ! q))))"
    using q(1) run q(2) d(2) q(3) d(3) assms(2) by auto
  have example: "s_qubit_targets pair2_done = [- 1, - 1]
      \<and> target_distance pair2 pair2_done = Inr [1, 0]"
    by (simp add: target_distance_def qubit_to_node_def pair2_def pair2_done_def
        enumerate_eq_zip py_get_def py_set_def py_index_def)
  from general example show ?thesis by blast
qed

theorem target_distance_indexes_sentinel_witness:
  "is_permutation (s_node_to_qubit path3_state)
   \<and> s_qubit_targets path3_state = [1, 0, - 1]
   \<and> qubit_to_node path3_state = Inr [1, 2, 0]
   \<and> target_distance path3 path3_state = Inr [1, 1, 0]
   \<and> (\<exists>q2n ds. qubit_to_node path3_state = Inr q2n \<and> target_distance path3 path3_state = Inr ds
         \<and> ds ! 2 = distances path3 ! nat (q2n ! 2) ! nat (q2n ! (3 - 1)))"
proof -
  have h1: "is_permutation (s_node_to_qubit path3_state)"
    by (simp add: path3_state_def is_permutation_def)
  have h2: "length (s_qubit_targets path3_state) = length (s_node_to_qubit path3_state)"
    by (simp add: path3_state_def)
  have h3: "\<forall>t \<in> set (s_qubit_targets path3_state).
      - 1 \<le> t \<and> t < int (length (s_node_to_qubit path3_state))"
    by (simp add: path3_state_def)
  have h4: "length (distances path3) = length (s_node_to_qubit path3_state)"
    by (simp add: path3_state_def path3_def)
  have h5: "\<forall>row \<in> set (distances path3). length row = length (s_node_to_qubit path3_state)"
    by (simp add: path3_state_def path3_def)
  have q: "qubit_to_node path3_state = Inr [1, 2, 0]"
    by (simp add: qubit_to_node_def path3_state_def enumerate_eq_zip py_set_def py_index_def)
  have t: "target_distance path3 path3_state = Inr [1, 1, 0]"
    by (simp add: target_distance_def q)
       (simp add: path3_def path3_state_def enumerate_eq_zip py_get_def py_set_def py_index_def)
  have tg: "s_qubit_targets path3_state = [1, 0, - 1]"
    by (simp add: path3_state_def)
  from target_distance_indexes_sentinel [OF h1 h2 h3 h4 h5] obtain q2n ds where
    "qubit_to_node path3_state = Inr q2n" "target_distance path3 path3_state = Inr ds"
    "\<forall>q < length (s_node_to_qubit path3_state).
        ds ! q = distances path3 ! nat (q2n ! q)
                   ! nat (q2n ! (if s_qubit_targets path3_state ! q = - 1
                                 then length (s_node_to_qubit path3_state) - 1
                                 else nat (s_qubit_targets path3_state ! q)))"
    by blast
  with q t have "[1, 1, 0] ! 2 = distances path3 ! nat ([1, 2, 0] ! 2) ! nat ([1, 2, 0 :: int] ! (3 - 1))"
    by (auto simp: path3_state_def)
  with h1 q t tg show ?thesis by simp
qed

subsection \<open>Copies are equal and independent\<close>

lemma state_copy_unfold:
  "state_copy h ob =
     (\<lparr>o_circuit = o_circuit ob, o_device = o_device ob, o_node_to_qubit = length h,
       o_qubit_targets = Suc (length h), o_circuit_progress = Suc (Suc (length h)),
       o_locked_edges = Suc (Suc (Suc (length h)))\<rparr>,
      h @ [h ! o_node_to_qubit ob, (h @ [h ! o_node_to_qubit ob]) ! o_qubit_targets ob,
           (h @ [h ! o_node_to_qubit ob, (h @ [h ! o_node_to_qubit ob]) ! o_qubit_targets ob])
              ! o_circuit_progress ob,
           (h @ [h ! o_node_to_qubit ob, (h @ [h ! o_node_to_qubit ob]) ! o_qubit_targets ob,
              (h @ [h ! o_node_to_qubit ob, (h @ [h ! o_node_to_qubit ob]) ! o_qubit_targets ob])
                 ! o_circuit_progress ob]) ! o_locked_edges ob])"
  by (simp add: state_copy_def np_copy_def)

lemma state_copy_store:
  assumes "obj_in_store h ob"
  shows "snd (state_copy h ob)
     = h @ [h ! o_node_to_qubit ob, h ! o_qubit_targets ob, h ! o_circuit_progress ob,
            h ! o_locked_edges ob]"
  using assms by (simp add: state_copy_unfold obj_in_store_def obj_arrays_def nth_append)

lemma state_copy_obj:
  "fst (state_copy h ob) =
     \<lparr>o_circuit = o_circuit ob, o_device = o_device ob, o_node_to_qubit = length h,
       o_qubit_targets = length h + 1, o_circuit_progress = length h + 2,
       o_locked_edges = length h + 3\<rparr>"
  by (simp add: state_copy_unfold)

lemma write_back_frame:
  assumes "a \<notin> set (obj_arrays c)"
  shows "write_back h c st ! a = h ! a"
  using assms by (simp add: write_back_def obj_arrays_def)

lemma load_write_back:
  assumes "distinct (obj_arrays c)" and "obj_in_store h c"
  shows "load (write_back h c st) c = st"
  using assms by (simp add: load_def write_back_def obj_arrays_def obj_in_store_def)

lemma state_copy_fresh:
  assumes "obj_in_store h ob"
  shows "distinct (obj_arrays (fst (state_copy h ob)))"
    and "obj_in_store (snd (state_copy h ob)) (fst (state_copy h ob))"
    and "\<forall>a \<in> set (obj_arrays ob). a \<notin> set (obj_arrays (fst (state_copy h ob)))"
    and "\<forall>a < length h. snd (state_copy h ob) ! a = h ! a"
    and "load (snd (state_copy h ob)) (fst (state_copy h ob)) = load h ob"
  using assms
  by (auto simp: state_copy_store state_copy_obj obj_arrays_def obj_in_store_def nth_append load_def)

lemma state_copy_eq:
  assumes "obj_in_store h ob"
  shows "state_eq (snd (state_copy h ob)) (fst (state_copy h ob)) ob"
  using assms
  by (simp add: state_copy_store state_copy_obj state_eq_def obj_arrays_def obj_in_store_def
      nth_append)

lemma state_eq_ignores_references:
  "state_eq h (a\<lparr>o_circuit := circ, o_device := dv\<rparr>) b = state_eq h a b"
  by (simp add: state_eq_def)

text \<open>
  C8. For a state object whose four arrays are in the store, \<^verbatim>\<open>__copy__\<close> returns an
  object that \<^verbatim>\<open>__eq__\<close> finds equal to the original; \<^verbatim>\<open>__eq__\<close> holds of two
  state objects exactly when each of the four arrays of the one has the contents of the
  same array of the other (replacing the circuit and device references changes nothing),
  and the copy shares the circuit and the device. Copying leaves the original's
  arrays as they were, and so does every \<^verbatim>\<open>execute_swap\<close>, \<^verbatim>\<open>execute_cnot\<close> and
  \<^verbatim>\<open>update_locks\<close> run on the copy, whether it returns or raises; the copy's own
  arrays do take the effect of the operation.
\<close>

theorem copy_equal_and_independent:
  assumes "obj_in_store h ob"
  shows "state_eq (snd (state_copy h ob)) (fst (state_copy h ob)) ob
       \<and> (state_eq h2 ob1 ob2 \<longleftrightarrow>
            h2 ! o_node_to_qubit ob1 = h2 ! o_node_to_qubit ob2 \<and>
            h2 ! o_qubit_targets ob1 = h2 ! o_qubit_targets ob2 \<and>
            h2 ! o_circuit_progress ob1 = h2 ! o_circuit_progress ob2 \<and>
            h2 ! o_locked_edges ob1 = h2 ! o_locked_edges ob2)
       \<and> (state_eq h2 ob1 ob2 \<longleftrightarrow> load h2 ob1 = load h2 ob2)
       \<and> state_eq (snd (state_copy h ob))
            ((fst (state_copy h ob))\<lparr>o_circuit := circ, o_device := dv\<rparr>) ob
       \<and> o_circuit (fst (state_copy h ob)) = o_circuit ob
       \<and> o_device (fst (state_copy h ob)) = o_device ob
       \<and> (\<forall>a \<in> set (obj_arrays ob). snd (state_copy h ob) ! a = h ! a)
       \<and> (\<forall>a \<in> set (obj_arrays ob).
            snd (obj_execute_swap (snd (state_copy h ob)) (fst (state_copy h ob)) solution) ! a = h ! a
          \<and> snd (obj_execute_cnot (snd (state_copy h ob)) (fst (state_copy h ob))) ! a = h ! a
          \<and> snd (obj_update_locks (snd (state_copy h ob)) (fst (state_copy h ob)) msk multiplier) ! a
              = h ! a)
       \<and> load (snd (obj_execute_swap (snd (state_copy h ob)) (fst (state_copy h ob)) solution))
            (fst (state_copy h ob))
          = snd (execute_swap (o_device ob) (load h ob) solution)
       \<and> load (snd (obj_execute_cnot (snd (state_copy h ob)) (fst (state_copy h ob))))
            (fst (state_copy h ob))
          = snd (execute_cnot (o_device ob) (o_circuit ob) (load h ob))
       \<and> load (snd (obj_update_locks (snd (state_copy h ob)) (fst (state_copy h ob)) msk multiplier))
            (fst (state_copy h ob))
          = snd (update_locks (load h ob) msk multiplier)"
proof -
  let ?c = "fst (state_copy h ob)" and ?h1 = "snd (state_copy h ob)"
  note fresh = state_copy_fresh [OF assms]
  have old: "\<forall>a \<in> set (obj_arrays ob). a < length h"
    using assms by (simp add: obj_in_store_def list_all_iff)
  have kept: "\<forall>a \<in> set (obj_arrays ob). ?h1 ! a = h ! a"
    using old fresh(4) by blast
  have frame: "\<forall>a \<in> set (obj_arrays ob). write_back ?h1 ?c st ! a = h ! a" for st
    using kept fresh(3) by (simp add: write_back_frame)
  have refs: "o_circuit ?c = o_circuit ob" "o_device ?c = o_device ob"
    by (simp_all add: state_copy_obj)
  have roundtrip: "load (write_back ?h1 ?c st) ?c = st" for st
    using fresh(1,2) by (rule load_write_back)
  have compared: "state_eq h2 ob1 ob2 \<longleftrightarrow>
            h2 ! o_node_to_qubit ob1 = h2 ! o_node_to_qubit ob2 \<and>
            h2 ! o_qubit_targets ob1 = h2 ! o_qubit_targets ob2 \<and>
            h2 ! o_circuit_progress ob1 = h2 ! o_circuit_progress ob2 \<and>
            h2 ! o_locked_edges ob1 = h2 ! o_locked_edges ob2"
    by (simp add: state_eq_def)
  have loaded: "state_eq h2 ob1 ob2 \<longleftrightarrow> load h2 ob1 = load h2 ob2"
    by (simp add: state_eq_def load_def)
  have rest: "state_eq ?h1 ?c ob
       \<and> state_eq ?h1 (?c\<lparr>o_circuit := circ, o_device := dv\<rparr>) ob
       \<and> o_circuit ?c = o_circuit ob
       \<and> o_device ?c = o_device ob
       \<and> (\<forall>a \<in> set (obj_arrays ob). ?h1 ! a = h ! a)
       \<and> (\<forall>a \<in> set (obj_arrays ob).
            snd (obj_execute_swap ?h1 ?c solution) ! a = h ! a
          \<and> snd (obj_execute_cnot ?h1 ?c) ! a = h ! a
          \<and> snd (obj_update_locks ?h1 ?c msk multiplier) ! a = h ! a)
       \<and> load (snd (obj_execute_swap ?h1 ?c solution)) ?c
          = snd (execute_swap (o_device ob) (load h ob) solution)
       \<and> load (snd (obj_execute_cnot ?h1 ?c)) ?c
          = snd (execute_cnot (o_device ob) (o_circuit ob) (load h ob))
       \<and> load (snd (obj_update_locks ?h1 ?c msk multiplier)) ?c
          = snd (update_locks (load h ob) msk multiplier)"
    using state_copy_eq [OF assms] kept frame roundtrip refs fresh(5)
    by (simp add: state_eq_ignores_references obj_execute_swap_def obj_execute_cnot_def
        obj_update_locks_def split_beta)
  from rest compared loaded show ?thesis
    by blast
qed

theorem copy_equal_and_independent_witness:
  "obj_in_store store4 path3_obj
   \<and> snd (state_copy store4 path3_obj) = store4 @ store4
   \<and> obj_arrays (fst (state_copy store4 path3_obj)) = [4, 5, 6, 7]
   \<and> state_eq (snd (state_copy store4 path3_obj)) (fst (state_copy store4 path3_obj)) path3_obj
   \<and> snd (obj_execute_swap (snd (state_copy store4 path3_obj))
             (fst (state_copy store4 path3_obj)) [True, False])
       = store4 @ [[0, 2, 1], [1, 0, - 1], [0, 0, 0], [0, 0]]
   \<and> snd (obj_execute_swap (snd (state_copy store4 path3_obj))
             (fst (state_copy store4 path3_obj)) [True, False]) ! 0 = store4 ! 0
   \<and> \<not> state_eq (snd (obj_execute_swap (snd (state_copy store4 path3_obj))
                      (fst (state_copy store4 path3_obj)) [True, False]))
          (fst (state_copy store4 path3_obj)) path3_obj"
proof -
  have h: "obj_in_store store4 path3_obj"
    by (simp add: obj_in_store_def obj_arrays_def store4_def path3_obj_def)
  have c: "snd (state_copy store4 path3_obj) = store4 @ store4"
    "obj_arrays (fst (state_copy store4 path3_obj)) = [4, 5, 6, 7]"
    by (simp_all add: state_copy_def np_copy_def store4_def path3_obj_def obj_arrays_def)
  have run: "snd (obj_execute_swap (snd (state_copy store4 path3_obj))
             (fst (state_copy store4 path3_obj)) [True, False])
       = store4 @ [[0, 2, 1], [1, 0, - 1], [0, 0, 0], [0, 0]]"
    by (simp add: state_copy_def np_copy_def store4_def path3_obj_def obj_execute_swap_def
        load_def write_back_def execute_swap_def path3_def py_get_def py_set_def py_index_def)
  have a: "0 \<in> set (obj_arrays path3_obj)"
    by (simp add: obj_arrays_def path3_obj_def)
  have refs: "o_node_to_qubit (fst (state_copy store4 path3_obj)) = 4"
    "o_node_to_qubit path3_obj = 0"
    by (simp_all add: state_copy_def np_copy_def store4_def path3_obj_def)
  let ?h2 = "snd (obj_execute_swap (snd (state_copy store4 path3_obj))
                 (fst (state_copy store4 path3_obj)) [True, False])"
  have differ: "?h2 ! 4 \<noteq> ?h2 ! 0"
    unfolding run by (simp add: store4_def)
  note inst = copy_equal_and_independent [OF h, where solution = "[True, False]"
      and ?h2.0 = ?h2 and ?ob1.0 = "fst (state_copy store4 path3_obj)" and ?ob2.0 = path3_obj]
  from inst
  have "state_eq (snd (state_copy store4 path3_obj)) (fst (state_copy store4 path3_obj)) path3_obj"
    and "\<forall>a \<in> set (obj_arrays path3_obj). ?h2 ! a = store4 ! a"
    by simp_all
  moreover from inst refs differ
  have "\<not> state_eq ?h2 (fst (state_copy store4 path3_obj)) path3_obj"
    by simp
  ultimately show ?thesis
    using a h c run by blast
qed

subsection \<open>The degenerate case and the search limit\<close>

text \<open>
  C6. If no edge is eligible for the all-zero solution, the initial candidate is the
  all-zero solution and \<^verbatim>\<open>simulated_annealing\<close> returns it at once, with
  \<^verbatim>\<open>-np.inf\<close> for the chooser \<^verbatim>\<open>'model'\<close> and \<open>0\<close> otherwise: the result does not
  depend on the random numbers or the search limit, and the oracle's state is the one the
  search was given, whatever the oracle, so the oracle was not called. This is a normal
  return: proposing a neighbour of the all-zero solution in such a state raises
  \<^verbatim>\<open>RuntimeError("Ran out of edges to swap")\<close>.
\<close>

theorem degenerate_returns_immediately:
  assumes "swappable_edges dev st (replicate (length (edges dev)) 0) = []"
  shows "generate_initial_solution dev st r = Inr (replicate (length (edges dev)) 0)
       \<and> simulated_annealing dev st get_energy action_chooser picks unif search_limit orc
           = (Inr (replicate (length (edges dev)) 0,
                   if action_chooser = ''model'' then NegInf else Finite 0), orc)
       \<and> get_neighbour_solution dev st (replicate (length (edges dev)) 0) r
           = Inl (RuntimeError ''Ran out of edges to swap'')"
  using assms
  by (simp add: generate_initial_solution_def simulated_annealing_def get_neighbour_solution_def
      list_all_iff)


theorem degenerate_returns_immediately_witness:
  "swappable_edges pair2 (pair2_done\<lparr>s_locked_edges := [1]\<rparr>) (replicate (length (edges pair2)) 0) = []
   \<and> generate_initial_solution pair2 (pair2_done\<lparr>s_locked_edges := [1]\<rparr>) 0 = Inr [0]
   \<and> simulated_annealing pair2 (pair2_done\<lparr>s_locked_edges := [1]\<rparr>) count_energy ''model''
         (\<lambda>k. 0) (\<lambda>k. 0) None 0 = (Inr ([0], NegInf), 0)
   \<and> simulated_annealing pair2 (pair2_done\<lparr>s_locked_edges := [1]\<rparr>) count_energy ''target''
         (\<lambda>k. 0) (\<lambda>k. 0) None 0 = (Inr ([0], Finite 0), 0)
   \<and> get_neighbour_solution pair2 (pair2_done\<lparr>s_locked_edges := [1]\<rparr>) [0] 0
       = Inl (RuntimeError ''Ran out of edges to swap'')"
proof -
  let ?st = "pair2_done\<lparr>s_locked_edges := [1]\<rparr>"
  have h: "swappable_edges pair2 ?st (replicate (length (edges pair2)) 0) = []"
    by (simp add: swappable_edges_def pair2_def pair2_done_def edge_locked_def)
  have z: "replicate (length (edges pair2)) (0::int) = [0]"
    by (simp add: pair2_def)
  from degenerate_returns_immediately [OF h, of 0 count_energy "''model''" "\<lambda>k. 0" "\<lambda>k. 0" None 0]
    degenerate_returns_immediately [OF h, of 0 count_energy "''target''" "\<lambda>k. 0" "\<lambda>k. 0" None 0]
    h z
  show ?thesis by simp
qed

lemma path3_initial: "generate_initial_solution path3 path3_state 0 = Inr [1, 0]"
  by code_simp

lemma path3_neighbour: "get_neighbour_solution path3 path3_state [1, 0] 0 = Inr [0, 0]"
  by code_simp

lemma path3_start:
  "sa_start path3_state count_energy ''model'' 0 [1, 0]
     = \<lparr>temp = 60, current_solution = [1, 0], current_energy = 1, best_solution = [1, 0],
        best_energy = 1, iterations_since_best = 0, iterations = 0, oracle_state = 1\<rparr>"
  by (simp add: sa_start_def count_energy_def initial_temperature_def)

lemma path3_body:
  "sa_body path3 path3_state count_energy ''model'' (\<lambda>k. 0) (\<lambda>k. 0)
      \<lparr>temp = 60, current_solution = [1, 0], current_energy = 1, best_solution = [1, 0],
        best_energy = 1, iterations_since_best = 0, iterations = 0, oracle_state = 1\<rparr>
     = Inr \<lparr>temp = 57, current_solution = [0, 0], current_energy = 0, best_solution = [0, 0],
        best_energy = 0, iterations_since_best = Suc 0, iterations = Suc 0, oracle_state = 2\<rparr>"
  by (simp add: sa_body_def path3_neighbour count_energy_def sa_accept_def
      acceptance_probability_def cooling_multiplier_def)

lemma path3_limit_zero_loop:
  "sa_loop path3 path3_state count_energy ''model'' (\<lambda>k. 0) (\<lambda>k. 0) (Some 0)
         (sa_start path3_state count_energy ''model'' 0 [1, 0])
       = (None, \<lparr>temp = 57, current_solution = [0, 0], current_energy = 0,
                 best_solution = [0, 0], best_energy = 0, iterations_since_best = Suc 0,
                 iterations = Suc 0, oracle_state = 2\<rparr>)"
proof -
  let ?v1 = "\<lparr>temp = 57, current_solution = [0, 0], current_energy = 0,
                 best_solution = [0, 0], best_energy = 0, iterations_since_best = Suc 0,
                 iterations = Suc 0, oracle_state = 2::int\<rparr>"
  have stop: "sa_loop path3 path3_state count_energy ''model'' (\<lambda>k. 0) (\<lambda>k. 0) (Some 0) ?v1
      = (None, ?v1)"
    by (subst sa_loop.simps) (simp add: over_limit_def min_temperature_def)
  show ?thesis
    unfolding path3_start
    by (subst sa_loop.simps) (simp add: over_limit_def min_temperature_def path3_body stop)
qed

lemma path3_limit_zero_result:
  "simulated_annealing path3 path3_state count_energy ''model'' (\<lambda>k. 0) (\<lambda>k. 0) (Some 0) 0
       = (Inr ([0, 0], Finite 0), 2)"
  by (simp add: simulated_annealing_def path3_initial path3_limit_zero_loop)

text \<open>
  C7, evaluated. On the path \<open>0 - 1 - 2\<close> without locks, with random choices that take
  the first available edge and an oracle that counts the selected edges, the initial
  candidate selects the edge \<open>0 - 1\<close>. With a search limit of zero the loop test
  \<^verbatim>\<open>iterations > search_limit\<close> is false at the first pass, so the body runs once: a
  neighbour is proposed and scored (the oracle is called twice in all), it replaces the
  initial candidate, and the all-zero solution is returned.
\<close>

theorem search_limit_zero_runs_once:
  "generate_initial_solution path3 path3_state 0 = Inr [1, 0]
   \<and> sa_loop path3 path3_state count_energy ''model'' (\<lambda>k. 0) (\<lambda>k. 0) (Some 0)
         (sa_start path3_state count_energy ''model'' 0 [1, 0])
       = (None, \<lparr>temp = 57, current_solution = [0, 0], current_energy = 0,
                 best_solution = [0, 0], best_energy = 0, iterations_since_best = 1,
                 iterations = 1, oracle_state = 2\<rparr>)
   \<and> simulated_annealing path3 path3_state count_energy ''model'' (\<lambda>k. 0) (\<lambda>k. 0) (Some 0) 0
       = (Inr ([0, 0], Finite 0), 2)"
  by (simp add: path3_initial path3_limit_zero_loop path3_limit_zero_result)

subsection \<open>The cooling schedule\<close>

lemma cooling_rate_range: "0 < cooling_multiplier \<and> cooling_multiplier < 1"
  by (simp add: cooling_multiplier_def)

lemma sa_loop_schedule:
  assumes "temp v = initial_temperature * cooling_multiplier ^ iterations v"
    and "iterations v = 0 \<or> min_temperature < initial_temperature * cooling_multiplier ^ (iterations v - 1)"
  shows "temp (snd (sa_loop dev st get_energy action_chooser picks unif search_limit v))
          = initial_temperature * cooling_multiplier
              ^ iterations (snd (sa_loop dev st get_energy action_chooser picks unif search_limit v))
       \<and> (iterations (snd (sa_loop dev st get_energy action_chooser picks unif search_limit v)) = 0
          \<or> min_temperature < initial_temperature * cooling_multiplier
              ^ (iterations (snd (sa_loop dev st get_energy action_chooser picks unif search_limit v)) - 1))"
  using assms
proof (induction dev st get_energy action_chooser picks unif search_limit v rule: sa_loop.induct)
  case (1 dev st get_energy action_chooser picks unif search_limit v)
  show ?case
  proof (cases "temp v > min_temperature \<and> \<not> over_limit search_limit (iterations v)")
    case False
    then have "sa_loop dev st get_energy action_chooser picks unif search_limit v = (None, v)"
      by (subst sa_loop.simps) auto
    then show ?thesis
      using "1.prems" by simp
  next
    case go: True
    show ?thesis
    proof (cases "sa_body dev st get_energy action_chooser picks unif v")
      case (Inl e)
      with go have "sa_loop dev st get_energy action_chooser picks unif search_limit v = (Some e, v)"
        by (subst sa_loop.simps) simp
      then show ?thesis
        using "1.prems" by simp
    next
      case (Inr v1)
      from sa_body_temp [OF Inr] have t: "temp v1 = temp v * cooling_multiplier"
        and n: "iterations v1 = Suc (iterations v)" by simp_all
      have a: "temp v1 = initial_temperature * cooling_multiplier ^ iterations v1"
        using t n "1.prems"(1) by simp
      have b: "iterations v1 = 0 \<or> min_temperature < initial_temperature * cooling_multiplier ^ (iterations v1 - 1)"
        using go n "1.prems"(1) by simp
      from go have g1: "min_temperature < temp v" and g2: "\<not> over_limit search_limit (iterations v)"
        by simp_all
      have "sa_loop dev st get_energy action_chooser picks unif search_limit v
          = sa_loop dev st get_energy action_chooser picks unif search_limit v1"
        using go Inr by (subst sa_loop.simps) simp
      with "1.IH" [OF g1 g2 Inr a b] show ?thesis
        by simp
    qed
  qed
qed


lemma iterations_bound:
  fixes t0 c m :: real
  assumes "0 < c" and "c < 1" and "0 < t0" and "0 < m"
    and "n = 0 \<or> m < t0 * c ^ (n - 1)"
  shows "n \<le> nat \<lceil>ln (m / t0) / ln c\<rceil>"
proof (cases n)
  case 0
  then show ?thesis by simp
next
  case (Suc k)
  with assms(5) have "m < t0 * c ^ k" by simp
  then have "m / t0 < c ^ k"
    using assms(3) by (simp add: field_simps)
  moreover have "0 < m / t0" using assms by simp
  ultimately have "ln (m / t0) < ln (c ^ k)"
    by (simp add: ln_less_cancel_iff)
  also have "ln (c ^ k) = real k * ln c"
    using assms(1) by (simp add: ln_realpow)
  finally have "ln (m / t0) < real k * ln c" .
  moreover have "ln c < 0" using assms by simp
  ultimately have "real k < ln (m / t0) / ln c"
    by (simp add: field_simps)
  then have "int k < \<lceil>ln (m / t0) / ln c\<rceil>"
    by linarith
  with Suc show ?thesis by linarith
qed

lemma bound_value: "nat \<lceil>ln (min_temperature / initial_temperature) / ln cooling_multiplier\<rceil> = 125"
proof -
  let ?L = "ln (min_temperature / initial_temperature) / ln cooling_multiplier"
  have c: "ln cooling_multiplier < 0" by (simp add: cooling_multiplier_def)
  have r: "min_temperature / initial_temperature = 1 / 600"
    by (simp add: min_temperature_def initial_temperature_def)
  have lo: "cooling_multiplier ^ 125 \<le> min_temperature / initial_temperature"
    unfolding r by (simp add: cooling_multiplier_def power_divide)
  have hi: "min_temperature / initial_temperature < cooling_multiplier ^ 124"
    unfolding r by (simp add: cooling_multiplier_def power_divide)
  have "ln (cooling_multiplier ^ 125) \<le> ln (min_temperature / initial_temperature)"
    using lo by (subst ln_le_cancel_iff) (simp_all add: cooling_multiplier_def r)
  then have "125 * ln cooling_multiplier \<le> ln (min_temperature / initial_temperature)"
    by (simp add: ln_realpow cooling_multiplier_def)
  then have up: "?L \<le> 125" using c by (simp add: field_simps)
  have "ln (min_temperature / initial_temperature) < ln (cooling_multiplier ^ 124)"
    using hi by (subst ln_less_cancel_iff) (simp_all add: cooling_multiplier_def r)
  then have "ln (min_temperature / initial_temperature) < 124 * ln cooling_multiplier"
    by (simp add: ln_realpow cooling_multiplier_def)
  then have dn: "124 < ?L" using c by (simp add: field_simps)
  from up dn have "\<lceil>?L\<rceil> = 125" by (simp add: ceiling_eq_iff)
  then show ?thesis by simp
qed

lemma pair2_neighbour:
  assumes "current = [0] \<or> current = [1]"
  shows "get_neighbour_solution pair2 pair2_done current r = Inr [0]
       \<or> get_neighbour_solution pair2 pair2_done current r = Inr [1]"
proof -
  have av: "swappable_edges pair2 pair2_done current = [0]"
    by (simp add: swappable_edges_def pair2_def pair2_done_def edge_locked_def)
  have ok: "check_valid_solution pair2 [b] (protected_edges pair2_done) = Inr ()" for b
    by (simp add: check_valid_solution_def protected_edges_def locked_edges_def pair2_def
        pair2_done_def py_get_def py_index_def)
  from assms show ?thesis
    by (auto simp: get_neighbour_solution_def av flip_edge_def py_get_def py_set_def
        py_index_def ok)
qed

lemma pair2_body:
  assumes "current_solution v = [0] \<or> current_solution v = [1]"
  shows "\<exists>v1. sa_body pair2 pair2_done get_energy action_chooser picks unif v = Inr v1
          \<and> (current_solution v1 = [0] \<or> current_solution v1 = [1])"
proof -
  from pair2_neighbour [OF assms, of "picks (Suc (iterations v))"] obtain n where
    n: "get_neighbour_solution pair2 pair2_done (current_solution v) (picks (Suc (iterations v))) = Inr n"
    and nb: "n = [0] \<or> n = [1]"
    by blast
  obtain e o1 where e: "get_energy n pair2_done action_chooser (oracle_state v) = (e, o1)"
    by (cases "get_energy n pair2_done action_chooser (oracle_state v)")
  have "current_solution (sa_accept v n e (unif (iterations v))) = current_solution v
      \<or> current_solution (sa_accept v n e (unif (iterations v))) = n"
    by (simp add: sa_accept_def)
  with assms nb n e show ?thesis
    by (auto simp: sa_body_def Let_def)
qed

lemma pair2_loop_completes:
  assumes "dev = pair2" and "st = pair2_done"
    and "current_solution v = [0] \<or> current_solution v = [1]"
  shows "fst (sa_loop dev st get_energy action_chooser picks unif search_limit v) = None"
  using assms
proof (induction dev st get_energy action_chooser picks unif search_limit v rule: sa_loop.induct)
  case (1 dev st get_energy action_chooser picks unif search_limit v)
  show ?case
  proof (cases "temp v > min_temperature \<and> \<not> over_limit search_limit (iterations v)")
    case False
    then have "sa_loop dev st get_energy action_chooser picks unif search_limit v = (None, v)"
      by (subst sa_loop.simps) auto
    then show ?thesis by simp
  next
    case go: True
    from pair2_body [OF "1.prems"(3), of get_energy action_chooser picks unif] "1.prems"(1,2)
    obtain v1 where b: "sa_body dev st get_energy action_chooser picks unif v = Inr v1"
      and c: "current_solution v1 = [0] \<or> current_solution v1 = [1]"
      by auto
    from go have g1: "min_temperature < temp v" and g2: "\<not> over_limit search_limit (iterations v)"
      by simp_all
    have "sa_loop dev st get_energy action_chooser picks unif search_limit v
        = sa_loop dev st get_energy action_chooser picks unif search_limit v1"
      using go b by (subst sa_loop.simps) simp
    with "1.IH" [OF g1 g2 b "1.prems"(1,2) c] show ?thesis by simp
  qed
qed

lemma still_warm: "n \<le> 124 \<Longrightarrow> min_temperature < initial_temperature * cooling_multiplier ^ n"
proof -
  assume "n \<le> 124"
  then have "cooling_multiplier ^ 124 \<le> cooling_multiplier ^ n"
    by (intro power_decreasing) (simp_all add: cooling_multiplier_def)
  moreover have "min_temperature < initial_temperature * cooling_multiplier ^ 124"
    by (simp add: min_temperature_def initial_temperature_def cooling_multiplier_def power_divide)
  ultimately show ?thesis
    by (simp add: initial_temperature_def)
qed

lemma pair2_initial: "generate_initial_solution pair2 pair2_done 0 = Inr [1]"
  by code_simp

lemma sa_loop_cold:
  assumes "fst (sa_loop dev st get_energy action_chooser picks unif None v) = None"
  shows "temp (snd (sa_loop dev st get_energy action_chooser picks unif None v)) \<le> min_temperature"
  using assms
proof (induction dev st get_energy action_chooser picks unif "None :: int option" v
    rule: sa_loop.induct)
  case (1 dev st get_energy action_chooser picks unif v)
  show ?case
  proof (cases "temp v > min_temperature")
    case False
    then have "sa_loop dev st get_energy action_chooser picks unif None v = (None, v)"
      by (subst sa_loop.simps) simp
    with False show ?thesis by simp
  next
    case go: True
    have lim: "\<not> over_limit None (iterations v)" by (simp add: over_limit_def)
    show ?thesis
    proof (cases "sa_body dev st get_energy action_chooser picks unif v")
      case (Inl e)
      with go have "sa_loop dev st get_energy action_chooser picks unif None v = (Some e, v)"
        by (subst sa_loop.simps) (simp add: over_limit_def)
      with "1.prems" show ?thesis by simp
    next
      case (Inr v1)
      have eq: "sa_loop dev st get_energy action_chooser picks unif None v
          = sa_loop dev st get_energy action_chooser picks unif None v1"
        using go Inr by (subst sa_loop.simps) (simp add: over_limit_def)
      with "1.prems" "1.hyps" [OF go lim Inr] show ?thesis by simp
    qed
  qed
qed

text \<open>
  C5. The cooling rate lies strictly between \<open>0\<close> and \<open>1\<close>. A pass through the body of
  the loop multiplies the temperature by it and adds one to the iteration counter, so that
  the temperature strictly decreases whenever the loop's guard \<open>temp > min_temperature\<close>
  holds. Started as \<^verbatim>\<open>simulated_annealing\<close> starts it past the degenerate case, from the
  temperature \<open>60\<close> and iteration \<open>0\<close>, the loop ends, for every state, oracle, random source
  and search limit, after at most \<open>\<lceil>ln (min_temperature / initial_temperature) /
  ln cooling_multiplier\<rceil> = 125\<close> iterations, at the temperature
  \<open>60 \<cdot> 0.95 ^ iterations\<close>; and when no limit is given and no exception ends it, it ends
  with a temperature of at most \<open>0.1\<close>.
\<close>

theorem annealing_schedule:
  "0 < cooling_multiplier \<and> cooling_multiplier < 1
   \<and> (sa_body dev st get_energy action_chooser picks unif v = Inr v1 \<longrightarrow>
        temp v1 = temp v * cooling_multiplier \<and> iterations v1 = iterations v + 1
        \<and> (min_temperature < temp v \<longrightarrow> temp v1 < temp v))
   \<and> iterations (snd (sa_loop dev st get_energy action_chooser picks unif search_limit
                    (sa_start st get_energy action_chooser orc initial)))
       \<le> nat \<lceil>ln (min_temperature / initial_temperature) / ln cooling_multiplier\<rceil>
   \<and> nat \<lceil>ln (min_temperature / initial_temperature) / ln cooling_multiplier\<rceil> = 125
   \<and> temp (snd (sa_loop dev st get_energy action_chooser picks unif search_limit
                    (sa_start st get_energy action_chooser orc initial)))
       = initial_temperature * cooling_multiplier
           ^ iterations (snd (sa_loop dev st get_energy action_chooser picks unif search_limit
                    (sa_start st get_energy action_chooser orc initial)))
   \<and> (fst (sa_loop dev st get_energy action_chooser picks unif None
                    (sa_start st get_energy action_chooser orc initial)) = None \<longrightarrow>
        temp (snd (sa_loop dev st get_energy action_chooser picks unif None
                    (sa_start st get_energy action_chooser orc initial))) \<le> min_temperature)"
proof -
  let ?v0 = "sa_start st get_energy action_chooser orc initial"
  let ?r = "snd (sa_loop dev st get_energy action_chooser picks unif search_limit ?v0)"
  have v0: "temp ?v0 = initial_temperature * cooling_multiplier ^ iterations ?v0"
    "iterations ?v0 = 0 \<or> min_temperature < initial_temperature * cooling_multiplier ^ (iterations ?v0 - 1)"
    by (simp_all add: sa_start_def split_beta)
  from sa_loop_schedule [OF v0] have sched:
    "temp ?r = initial_temperature * cooling_multiplier ^ iterations ?r"
    "iterations ?r = 0 \<or> min_temperature < initial_temperature * cooling_multiplier ^ (iterations ?r - 1)"
    by simp_all
  have bound: "iterations ?r \<le> nat \<lceil>ln (min_temperature / initial_temperature) / ln cooling_multiplier\<rceil>"
    using sched(2)
    by (intro iterations_bound)
       (simp_all add: cooling_multiplier_def initial_temperature_def min_temperature_def)
  have step: "temp v1 = temp v * cooling_multiplier \<and> iterations v1 = iterations v + 1
        \<and> (min_temperature < temp v \<longrightarrow> temp v1 < temp v)"
    if "sa_body dev st get_energy action_chooser picks unif v = Inr v1"
  proof -
    from sa_body_temp [OF that] have t: "temp v1 = temp v * cooling_multiplier"
      and n: "iterations v1 = Suc (iterations v)" by simp_all
    have "temp v * cooling_multiplier < temp v" if "min_temperature < temp v"
      using that by (simp add: cooling_multiplier_def min_temperature_def)
    with t n show ?thesis by simp
  qed
  show ?thesis
    using cooling_rate_range step bound bound_value sched(1) sa_loop_cold
    by blast
qed

text \<open>The bound is reached: on two joined nodes without locks a neighbour always exists, so
  without a search limit the loop runs until the temperature has fallen to
  \<open>min_temperature\<close>, which takes exactly 125 passes.\<close>

theorem annealing_schedule_witness:
  "generate_initial_solution pair2 pair2_done 0 = Inr [1]
   \<and> fst (sa_loop pair2 pair2_done count_energy ''model'' (\<lambda>k. 0) (\<lambda>k. 0) None
             (sa_start pair2_done count_energy ''model'' 0 [1])) = None
   \<and> iterations (snd (sa_loop pair2 pair2_done count_energy ''model'' (\<lambda>k. 0) (\<lambda>k. 0) None
             (sa_start pair2_done count_energy ''model'' 0 [1]))) = 125"
proof -
  let ?v0 = "sa_start pair2_done count_energy ''model'' 0 [1]"
  let ?r = "sa_loop pair2 pair2_done count_energy ''model'' (\<lambda>k. 0) (\<lambda>k. 0) None ?v0"
  have "current_solution ?v0 = [0] \<or> current_solution ?v0 = [1]"
    by (simp add: sa_start_def split_beta)
  then have fin: "fst ?r = None"
    by (intro pair2_loop_completes) simp_all
  from annealing_schedule [where dev = pair2 and st = pair2_done and get_energy = count_energy
      and action_chooser = "''model''" and picks = "\<lambda>k. 0" and unif = "\<lambda>k. 0"
      and search_limit = None and orc = 0 and initial = "[1]" and v = ?v0 and ?v1.0 = ?v0] fin
  have le: "iterations (snd ?r) \<le> 125"
    and t: "temp (snd ?r) = initial_temperature * cooling_multiplier ^ iterations (snd ?r)"
    and cold: "temp (snd ?r) \<le> min_temperature"
    by simp_all
  have "\<not> iterations (snd ?r) \<le> 124"
    using still_warm [of "iterations (snd ?r)"] t cold by auto
  with le have "iterations (snd ?r) = 125" by simp
  with fin pair2_initial show ?thesis by simp
qed

subsection \<open>The search returns valid solutions\<close>

lemma check_protected_Inr:
  "check_protected idxs solution forced_mask = Inr u \<Longrightarrow>
   \<forall>i \<in> set idxs. i < length forced_mask \<and> \<not> (forced_mask ! i \<and> solution ! i = 1)"
proof (induction idxs)
  case Nil
  then show ?case by simp
next
  case (Cons i idxs)
  then show ?case
    by (auto simp: py_get_def py_index_def split: if_splits sum.splits)
qed

lemma lookup_edges_Inr:
  "lookup_edges es idxs = Inr found \<Longrightarrow>
   found = map (\<lambda>i. es ! i) idxs \<and> (\<forall>i \<in> set idxs. i < length es)"
proof (induction idxs arbitrary: found)
  case Nil
  then show ?case by simp
next
  case (Cons i idxs)
  then show ?case
    by (auto simp: py_get_def py_index_def split: if_splits sum.splits)
qed

lemma check_seen_Inr:
  "check_seen nodes seen = Inr u \<Longrightarrow> distinct nodes \<and> set nodes \<inter> set seen = {}"
proof (induction nodes arbitrary: seen)
  case Nil
  then show ?case by simp
next
  case (Cons node nodes)
  from Cons.prems have a: "node \<notin> set seen" and b: "check_seen nodes (node # seen) = Inr u"
    by (auto split: if_splits)
  from Cons.IH [OF b] a show ?case by auto
qed

lemma edge_nodes_disjoint:
  assumes "distinct (concat (map (\<lambda>e. [fst e, snd e]) (map (\<lambda>i. es ! i) idxs)))"
    and "i \<in> set idxs" and "j \<in> set idxs" and "i \<noteq> j" and "distinct idxs"
  shows "edges_disjoint (es ! i) (es ! j)"
  using assms
proof (induction idxs)
  case Nil
  then show ?case by simp
next
  case (Cons k idxs)
  then show ?case
    by (auto simp: edges_disjoint_def)
qed

lemma valid_solution_iff:
  "valid_solution dev st solution \<longleftrightarrow>
     length solution = length (edges dev) \<and>
     (\<forall>b \<in> set solution. b = 0 \<or> b = 1) \<and>
     (\<forall>i < length solution. solution ! i = 1 \<longrightarrow> \<not> edge_locked st i) \<and>
     (\<forall>i < length solution. \<forall>j < length solution.
        i \<noteq> j \<and> solution ! i = 1 \<and> solution ! j = 1 \<longrightarrow>
        edges_disjoint (edges dev ! i) (edges dev ! j))"
  by (auto simp: valid_solution_def list_all_iff)

lemma check_valid_solution_Inr:
  assumes "check_valid_solution dev solution (protected_edges st) = Inr u"
    and "length solution = length (edges dev)"
    and "\<forall>b \<in> set solution. b = 0 \<or> b = 1"
  shows "valid_solution dev st solution"
proof -
  let ?n = "length solution"
  let ?sel = "filter (\<lambda>i. solution ! i = 1) [0..<?n]"
  from assms(1) obtain u1 where
    p: "check_protected [0..<?n] solution (protected_edges st) = Inr u1"
    by (auto simp: check_valid_solution_def split: sum.splits)
  from check_protected_Inr [OF p]
  have m: "\<forall>i < ?n. i < length (protected_edges st) \<and> \<not> (protected_edges st ! i \<and> solution ! i = 1)"
    by simp
  have locks: "\<forall>i < ?n. solution ! i = 1 \<longrightarrow> \<not> edge_locked st i"
  proof (intro allI impI)
    fix i assume i: "i < ?n" and s: "solution ! i = 1"
    with m have "i < length (protected_edges st)" "\<not> protected_edges st ! i" by auto
    then show "\<not> edge_locked st i"
      by (simp add: protected_edges_def locked_edges_def edge_locked_def)
  qed
  have disj: "edges_disjoint (edges dev ! i) (edges dev ! j)"
    if "i < ?n" "j < ?n" "i \<noteq> j" "solution ! i = 1" "solution ! j = 1" for i j
  proof -
    from that have one: "1 \<in> set solution"
      by (metis nth_mem)
    with assms(1) p obtain swap_edges where
      l: "lookup_edges (edges dev) ?sel = Inr swap_edges"
      and c: "check_seen (concat (map (\<lambda>e. [fst e, snd e]) swap_edges)) [] = Inr u"
      by (auto simp: check_valid_solution_def split: sum.splits)
    from lookup_edges_Inr [OF l] have sw: "swap_edges = map (\<lambda>i. edges dev ! i) ?sel" by simp
    from check_seen_Inr [OF c] sw
    have d: "distinct (concat (map (\<lambda>e. [fst e, snd e]) (map (\<lambda>i. edges dev ! i) ?sel)))"
      by simp
    have "i \<in> set ?sel" "j \<in> set ?sel" "distinct ?sel"
      using that by simp_all
    from edge_nodes_disjoint [OF d this(1,2) that(3) this(3)] show ?thesis .
  qed
  show ?thesis
    unfolding valid_solution_iff using assms(2,3) locks disj by blast
qed

lemma flip_edge_Inr:
  assumes "flip_edge solution idx = Inr flipped"
  shows "idx < length solution \<and> flipped = solution[idx := (solution ! idx + 1) mod 2]"
  using assms
  by (auto simp: flip_edge_def py_get_def py_set_def py_index_def split: if_splits sum.splits)

lemma flip_edge_bits:
  assumes "flip_edge solution idx = Inr flipped" and "\<forall>b \<in> set solution. b = 0 \<or> b = 1"
  shows "length flipped = length solution \<and> (\<forall>b \<in> set flipped. b = 0 \<or> b = 1)"
proof -
  from flip_edge_Inr [OF assms(1)] have i: "idx < length solution"
    and f: "flipped = solution[idx := (solution ! idx + 1) mod 2]" by simp_all
  have "(solution ! idx + 1) mod 2 = 0 \<or> (solution ! idx + 1) mod 2 = 1" by presburger
  with f assms(2) show ?thesis
    by (auto dest!: set_update_subset_insert [THEN subsetD])
qed

lemma get_neighbour_solution_valid:
  assumes "get_neighbour_solution dev st current r = Inr neighbour"
    and "length current = length (edges dev)" and "\<forall>b \<in> set current. b = 0 \<or> b = 1"
  shows "valid_solution dev st neighbour"
proof -
  let ?av = "swappable_edges dev st current"
  from assms(1) obtain u where
    f: "flip_edge current (?av ! (r mod length ?av)) = Inr neighbour"
    and c: "check_valid_solution dev neighbour (protected_edges st) = Inr u"
    by (auto simp: get_neighbour_solution_def Let_def split: if_splits sum.splits)
  from flip_edge_bits [OF f assms(3)] assms(2)
  have "length neighbour = length (edges dev)" "\<forall>b \<in> set neighbour. b = 0 \<or> b = 1"
    by simp_all
  with c show ?thesis by (rule check_valid_solution_Inr)
qed

lemma generate_initial_solution_valid:
  assumes "generate_initial_solution dev st r = Inr initial"
  shows "valid_solution dev st initial"
proof -
  let ?z = "replicate (length (edges dev)) (0::int)"
  let ?av = "swappable_edges dev st ?z"
  show ?thesis
  proof (cases "?av = []")
    case True
    with assms have "initial = ?z" by (simp add: generate_initial_solution_def)
    then show ?thesis by (simp add: valid_solution_iff)
  next
    case False
    let ?idx = "?av ! (r mod length ?av)"
    from False assms have f: "flip_edge ?z ?idx = Inr initial"
      by (simp add: generate_initial_solution_def Let_def)
    from False have "?idx \<in> set ?av" by simp
    then have free: "\<not> edge_locked st ?idx"
      by (simp add: swappable_edges_def)
    from flip_edge_Inr [OF f] have i: "?idx < length (edges dev)" and
      ini: "initial = ?z[?idx := 1]" by simp_all
    have single: "initial ! k = 1 \<longleftrightarrow> k = ?idx" if "k < length (edges dev)" for k
      using that i ini by (simp add: nth_list_update)
    have bits: "\<forall>b \<in> set initial. b = 0 \<or> b = 1"
      using ini by (auto dest!: set_update_subset_insert [THEN subsetD])
    have len: "length initial = length (edges dev)" using ini by simp
    show ?thesis
      unfolding valid_solution_iff using len bits free single by auto
  qed
qed

lemma sa_accept_solutions:
  "(current_solution (sa_accept v new_solution new_energy u) = current_solution v
      \<or> current_solution (sa_accept v new_solution new_energy u) = new_solution)
   \<and> (best_solution (sa_accept v new_solution new_energy u) = best_solution v
      \<or> best_solution (sa_accept v new_solution new_energy u) = new_solution)"
  by (simp add: sa_accept_def)

lemma sa_body_valid:
  assumes "sa_body dev st get_energy action_chooser picks unif v = Inr v1"
    and "valid_solution dev st (current_solution v)" and "valid_solution dev st (best_solution v)"
  shows "valid_solution dev st (current_solution v1) \<and> valid_solution dev st (best_solution v1)"
proof -
  from assms(1) obtain new_solution where
    n: "get_neighbour_solution dev st (current_solution v) (picks (Suc (iterations v))) = Inr new_solution"
    by (auto simp: sa_body_def split: sum.splits)
  from assms(2) have "length (current_solution v) = length (edges dev)"
    "\<forall>b \<in> set (current_solution v). b = 0 \<or> b = 1"
    by (simp_all add: valid_solution_iff)
  with n have new: "valid_solution dev st new_solution"
    by (rule get_neighbour_solution_valid)
  obtain new_energy o1 where e: "get_energy new_solution st action_chooser (oracle_state v) = (new_energy, o1)"
    by (cases "get_energy new_solution st action_chooser (oracle_state v)")
  let ?a = "sa_accept v new_solution new_energy (unif (iterations v))"
  from assms(1) n e have "current_solution v1 = current_solution ?a" "best_solution v1 = best_solution ?a"
    by (auto simp: sa_body_def Let_def)
  with sa_accept_solutions [of v new_solution new_energy "unif (iterations v)"] new assms(2,3)
  show ?thesis by auto
qed

lemma sa_loop_valid:
  assumes "valid_solution dev st (current_solution v)" and "valid_solution dev st (best_solution v)"
  shows "valid_solution dev st
           (current_solution (snd (sa_loop dev st get_energy action_chooser picks unif search_limit v)))
       \<and> valid_solution dev st
           (best_solution (snd (sa_loop dev st get_energy action_chooser picks unif search_limit v)))"
  using assms
proof (induction dev st get_energy action_chooser picks unif search_limit v rule: sa_loop.induct)
  case (1 dev st get_energy action_chooser picks unif search_limit v)
  show ?case
  proof (cases "temp v > min_temperature \<and> \<not> over_limit search_limit (iterations v)")
    case False
    then have "sa_loop dev st get_energy action_chooser picks unif search_limit v = (None, v)"
      by (subst sa_loop.simps) auto
    then show ?thesis
      using "1.prems" by simp
  next
    case go: True
    show ?thesis
    proof (cases "sa_body dev st get_energy action_chooser picks unif v")
      case (Inl e)
      with go have "sa_loop dev st get_energy action_chooser picks unif search_limit v = (Some e, v)"
        by (subst sa_loop.simps) simp
      then show ?thesis
        using "1.prems" by simp
    next
      case (Inr v1)
      from go have g1: "min_temperature < temp v" and g2: "\<not> over_limit search_limit (iterations v)"
        by simp_all
      from sa_body_valid [OF Inr "1.prems"]
      have v1: "valid_solution dev st (current_solution v1)" "valid_solution dev st (best_solution v1)"
        by simp_all
      have "sa_loop dev st get_energy action_chooser picks unif search_limit v
          = sa_loop dev st get_energy action_chooser picks unif search_limit v1"
        using go Inr by (subst sa_loop.simps) simp
      with "1.IH" [OF g1 g2 Inr v1] show ?thesis
        by simp
    qed
  qed
qed

lemma simulated_annealing_valid:
  assumes "simulated_annealing dev st get_energy action_chooser picks unif search_limit orc
             = (Inr (solution, energy), orc1)"
  shows "valid_solution dev st solution"
proof -
  from assms obtain initial where
    i: "generate_initial_solution dev st (picks 0) = Inr initial"
    by (auto simp: simulated_annealing_def split: sum.splits)
  from generate_initial_solution_valid [OF i] have vi: "valid_solution dev st initial" .
  show ?thesis
  proof (cases "list_all (\<lambda>x. x = 0) initial")
    case True
    with assms i have "solution = initial"
      by (simp add: simulated_annealing_def)
    with vi show ?thesis by simp
  next
    case False
    let ?v0 = "sa_start st get_energy action_chooser orc initial"
    let ?r = "sa_loop dev st get_energy action_chooser picks unif search_limit ?v0"
    have "current_solution ?v0 = initial" "best_solution ?v0 = initial"
      by (simp_all add: sa_start_def split_beta)
    with vi have "valid_solution dev st (current_solution ?v0)" "valid_solution dev st (best_solution ?v0)"
      by simp_all
    from sa_loop_valid [OF this] have b: "valid_solution dev st (best_solution (snd ?r))"
      by simp
    from assms i False have "solution = best_solution (snd ?r)"
      by (auto simp: simulated_annealing_def split_beta split: option.splits)
    with b show ?thesis by simp
  qed
qed

text \<open>
  C3. Whatever the state, the oracle, the random numbers and the search limit, a solution
  that \<^verbatim>\<open>simulated_annealing\<close> returns has one entry, zero or one, per edge, selects no
  locked edge and no two edges with a common node. Every neighbour that
  \<^verbatim>\<open>get_neighbour_solution\<close> returns for such a solution is such a solution again, and
  a candidate that violates the requirement is not accepted: \<^verbatim>\<open>check_valid_solution\<close>
  raises an exception on it.
\<close>

theorem annealing_returns_valid_solutions:
  "(simulated_annealing dev st get_energy action_chooser picks unif search_limit orc
       = (Inr (solution, energy), orc1) \<longrightarrow> valid_solution dev st solution)
   \<and> (get_neighbour_solution dev st current r = Inr neighbour \<and> valid_solution dev st current
        \<longrightarrow> valid_solution dev st neighbour)
   \<and> (length candidate = length (edges dev) \<and> list_all (\<lambda>b. b = 0 \<or> b = 1) candidate
        \<and> \<not> valid_solution dev st candidate
        \<longrightarrow> (\<exists>e. check_valid_solution dev candidate (protected_edges st) = Inl e))"
proof -
  have a: "valid_solution dev st solution"
    if "simulated_annealing dev st get_energy action_chooser picks unif search_limit orc
       = (Inr (solution, energy), orc1)"
    using that by (rule simulated_annealing_valid)
  have b: "valid_solution dev st neighbour"
    if "get_neighbour_solution dev st current r = Inr neighbour" "valid_solution dev st current"
    using that by (intro get_neighbour_solution_valid [of dev st current r]) (simp_all add: valid_solution_iff)
  have c: "\<exists>e. check_valid_solution dev candidate (protected_edges st) = Inl e"
    if "length candidate = length (edges dev)" "list_all (\<lambda>b. b = 0 \<or> b = 1) candidate"
      "\<not> valid_solution dev st candidate"
  proof (cases "check_valid_solution dev candidate (protected_edges st)")
    case (Inl e)
    then show ?thesis by simp
  next
    case (Inr u)
    from check_valid_solution_Inr [OF Inr that(1)] that(2,3) show ?thesis
      by (simp add: list_all_iff)
  qed
  from a b c show ?thesis by blast
qed

theorem annealing_returns_valid_solutions_witness:
  "simulated_annealing path3 path3_state count_energy ''model'' (\<lambda>k. 0) (\<lambda>k. 0) (Some 0) 0
       = (Inr ([0, 0], Finite 0), 2)
   \<and> valid_solution path3 path3_state [0, 0]
   \<and> valid_solution path3 path3_state [1, 0]
   \<and> get_neighbour_solution path3 path3_state [1, 0] 0 = Inr [0, 0]
   \<and> \<not> valid_solution path3 path3_state [1, 1]
   \<and> check_valid_solution path3 [1, 1] (protected_edges path3_state)
       = Inl (RuntimeError ''Solution is not safe: Same node is being used twice in '')
   \<and> \<not> valid_solution path3 (path3_state\<lparr>s_locked_edges := [0, 2]\<rparr>) [0, 1]
   \<and> check_valid_solution path3 [0, 1] (protected_edges (path3_state\<lparr>s_locked_edges := [0, 2]\<rparr>))
       = Inl (RuntimeError ''Solution is not safe: Protected edge is being swapped'')"
proof -
  have v: "valid_solution path3 path3_state [1, 0]"
    by code_simp
  have n1: "\<not> valid_solution path3 path3_state [1, 1]"
    by code_simp
  have n2: "\<not> valid_solution path3 (path3_state\<lparr>s_locked_edges := [0, 2]\<rparr>) [0, 1]"
    by code_simp
  have c1: "check_valid_solution path3 [1, 1] (protected_edges path3_state)
       = Inl (RuntimeError ''Solution is not safe: Same node is being used twice in '')"
    by code_simp
  have c2: "check_valid_solution path3 [0, 1] (protected_edges (path3_state\<lparr>s_locked_edges := [0, 2]\<rparr>))
       = Inl (RuntimeError ''Solution is not safe: Protected edge is being swapped'')"
    by code_simp
  from annealing_returns_valid_solutions [where dev = path3 and st = path3_state
      and get_energy = count_energy and action_chooser = "''model''" and picks = "\<lambda>k. 0"
      and unif = "\<lambda>k. 0" and search_limit = "Some 0" and orc = 0 and solution = "[0, 0]"
      and energy = "Finite 0" and ?orc1.0 = 2]
  have "valid_solution path3 path3_state [0, 0]"
    by (simp add: path3_limit_zero_result)
  with v n1 n2 c1 c2 show ?thesis
    by (simp add: path3_limit_zero_result path3_neighbour)
qed

subsection \<open>Firing the ready interactions\<close>










text \<open>The bound on the progress counters is needed: at the largest 64-bit integer the
  increment wraps around to \<open>-2^63\<close>, and the second loop then raises \<^verbatim>\<open>IndexError\<close>
  when it indexes the sequence of the qubit with that progress.\<close>

lemma execute_cnot_wraps_at_max:
  "execute_cnot path3 path3_circuit
      (path3_state\<lparr>s_circuit_progress := [2 ^ 63 - 1, 2 ^ 63 - 1, 0]\<rparr>)
     = (Inl IndexError,
        path3_state\<lparr>s_circuit_progress := [- (2 ^ 63), - (2 ^ 63), 0]\<rparr>)"
  by code_simp

end
